theory Spec2Isabelle
  imports Main "HOL-Library.Word" "HOL-Library.AList"
begin

section \<open>The RPC client of client/rpc\_client.go\<close>

text \<open>
  The client multiplexes calls over one connection. A background goroutine
  (\<open>listen\<close>) decodes response headers and hands each to the handler registered
  under its sequence number; callers register a handler, send a request and wait
  on a channel.

  The embedding is a state-passing one. One record, \<open>world\<close>, holds the fields
  of \<open>RPCClient\<close>, the objects the client points to (handlers, channels,
  response destinations) and what the program prints. Every function of the
  source is a function on that record and runs as one atomic step; a call that
  waits in a \<open>select\<close> is cut at the \<open>select\<close> into the part before it and the
  part from it on, so that iterations of the listener can be placed in between.
  A goroutine that cannot go on (a send on a full channel, a held mutex) and a
  run-time panic (a send on, or the close of, a closed channel) are the results
  \<open>Blocked\<close> and \<open>Panic\<close>.
\<close>

subsection \<open>Values\<close>

type_synonym seqno = "64 word"

text \<open>A Go \<open>error\<close>: \<open>None\<close> is \<open>nil\<close>, \<open>Some m\<close> an error whose message is \<open>m\<close>.\<close>

type_synonym error = "string option"

text \<open>\<open>map[string]interface{}\<close>, the record of the event stream.\<close>

type_synonym event = "(string \<times> string) list"

type_synonym member = string

datatype 'a result = Ok 'a | Blocked | Panic

definition rbind :: "'a result \<Rightarrow> ('a \<Rightarrow> 'b result) \<Rightarrow> 'b result" where
  "rbind m f = (case m of Ok x \<Rightarrow> f x | Blocked \<Rightarrow> Blocked | Panic \<Rightarrow> Panic)"

definition clientClosed :: error where
  "clientClosed = Some ''client closed''"

subsection \<open>Records on the wire\<close>

text \<open>
  The command constants, the request and response structs and \<open>maxIPCVersion\<close>
  are declared in another file of the package. A command is a constructor, a
  request struct a constructor with the fields this file fills in, and the
  protocol version a parameter of \<open>handshake\<close>.
\<close>

datatype command =
    handshakeCommand | forceLeaveCommand | joinCommand | membersCommand
  | membersFilteredCommand | eventCommand | leaveCommand | tagsCommand
  | monitorCommand | streamCommand | stopCommand

datatype request =
    handshakeRequest nat
  | forceLeaveRequest string
  | joinRequest "string list" bool
  | membersRequest "(string \<times> string) list" string
  | eventRequest string string bool
  | tagsRequest "(string \<times> string) list" "string list"
  | monitorRequest string
  | streamRequest string
  | stopRequest "64 word"

record requestHeader =
  Command :: command
  Seq :: seqno

record responseHeader =
  rSeq :: seqno
  rError :: string

datatype payload = joinResponse "32 word" | membersResponse "member list"

text \<open>What the encoder writes: a header, or the body that follows one.\<close>

datatype frame_out = OutHeader requestHeader | OutBody request

text \<open>
  The codec is a library. The connection's input is modelled as the list of the
  records still to be decoded. A \<open>Decode\<close> call takes the first one; it
  succeeds when the record has the shape of the destination, and fails
  otherwise and at the end of the input.
\<close>

datatype record_in =
    InHeader responseHeader
  | InBody payload
  | InLog string
  | InEvent event
  | Malformed

definition errEOF :: string where
  "errEOF = ''EOF''"

definition errDecode :: string where
  "errDecode = ''msgpack decode error''"

subsection \<open>Channels\<close>

datatype msg = MErr error | MLog string | MEvent event

text \<open>
  A channel: the values sent and not yet taken by the goroutine that receives
  them, its capacity, whether it is closed, and the number of goroutines
  parked in a receive on it. A value sent while a goroutine is parked is
  handed to that goroutine; here it joins \<open>ch_buf\<close>, from which the goroutine
  takes it when it runs next. So a send can proceed while \<open>ch_buf\<close> holds
  fewer values than \<open>ch_cap\<close> and \<open>ch_recvq\<close> together, and on an unbuffered
  channel only while a receiver is parked.
\<close>

record chan =
  ch_buf :: "msg list"
  ch_cap :: nat
  ch_closed :: bool
  ch_recvq :: nat

subsection \<open>Handlers\<close>

record monitorHandler =
  mh_closed :: bool
  mh_init :: bool
  mh_initCh :: nat
  mh_logCh :: nat
  mh_seq :: seqno

record streamHandler =
  sh_closed :: bool
  sh_init :: bool
  sh_initCh :: nat
  sh_eventCh :: nat
  sh_seq :: seqno

text \<open>
  The three implementations of \<open>seqHandler\<close>. A \<open>seqCallback\<close> holds the
  closure built by \<open>genericRPC\<close>, that is the variables it captures: the
  channel \<open>errCh\<close> and the destination \<open>resp\<close> (\<open>None\<close> for \<open>nil\<close>).
\<close>

datatype handler =
    SeqCallback nat "nat option"
  | MonitorH monitorHandler
  | StreamH streamHandler

text \<open>
  What the client did, in order: a call of a handler's method, a store into
  the dispatch map, a read of it, a lookup with delete, and its replacement by
  a new map, each with the state of the dispatch lock at that moment; and a
  request that reached the connection.
\<close>

datatype trace_event =
    EvHandle nat bool
  | EvCleanup nat bool
  | EvRegister seqno nat bool
  | EvLookup seqno bool
  | EvDelete seqno bool
  | EvReset bool
  | EvSend requestHeader

subsection \<open>The state\<close>

text \<open>
  \<open>seq\<close>, \<open>dispatch\<close>, \<open>dispatchLock\<close>, \<open>shutdown\<close> and \<open>shutdownCh\<close> are the
  fields of \<open>RPCClient\<close>. \<open>conn_open\<close> is the connection, \<open>incoming\<close> what the
  decoder will read, \<open>wbuf\<close> the buffer of the writer, \<open>wire_out\<close> what was
  flushed to the connection, and \<open>write_err\<close> the error the connection answers
  a write with. The dispatch map is an association list with one entry per key;
  its values are addresses in \<open>objs\<close>. \<open>chans\<close> and \<open>dests\<close> hold the channels
  and the response structs. \<open>logs\<close> is the output of \<open>log.Printf\<close>.
  \<open>trace\<close> is the list of the events so far. \<open>listening\<close> says that the goroutine started by
  \<open>go client.listen()\<close> has not returned.

  \<open>writeLock\<close> and \<open>shutdownLock\<close> are taken and released inside \<open>send\<close> and
  \<open>Close\<close>, which are single steps here, so they are never seen held.
\<close>

record world =
  seq :: seqno
  conn_open :: bool
  incoming :: "record_in list"
  wbuf :: "frame_out list"
  wire_out :: "frame_out list"
  write_err :: error
  dispatch :: "(seqno \<times> nat) list"
  dispatchLock :: bool
  shutdown :: bool
  shutdownCh :: chan
  objs :: "nat \<Rightarrow> handler"
  next_obj :: nat
  chans :: "nat \<Rightarrow> chan"
  next_chan :: nat
  dests :: "nat \<Rightarrow> payload"
  next_dest :: nat
  logs :: "string list"
  trace :: "trace_event list"
  listening :: bool

subsection \<open>Channel operations\<close>

text \<open>\<open>make(chan T, n)\<close>.\<close>

definition make_chan :: "nat \<Rightarrow> world \<Rightarrow> nat \<times> world" where
  "make_chan n s =
     (next_chan s,
      s\<lparr>chans := (chans s)(next_chan s := \<lparr>ch_buf = [], ch_cap = n, ch_closed = False, ch_recvq = 0\<rparr>),
        next_chan := Suc (next_chan s)\<rparr>)"

text \<open>
  \<open>c <- v\<close>: panics on a closed channel, hands \<open>v\<close> over when a receiver is
  parked or the buffer has room, and blocks otherwise.
\<close>

definition chan_send :: "nat \<Rightarrow> msg \<Rightarrow> world \<Rightarrow> world result" where
  "chan_send c v s =
     (let ch = chans s c in
      if ch_closed ch then Panic
      else if length (ch_buf ch) < ch_cap ch + ch_recvq ch
      then Ok (s\<lparr>chans := (chans s)(c := ch\<lparr>ch_buf := ch_buf ch @ [v]\<rparr>)\<rparr>)
      else Blocked)"

text \<open>
  \<open>select { case c <- v: default: }\<close>: the send when it can proceed, the
  default branch otherwise; the flag says which. A send on a closed channel
  panics in a \<open>select\<close> too.
\<close>

definition chan_try_send :: "nat \<Rightarrow> msg \<Rightarrow> world \<Rightarrow> (bool \<times> world) result" where
  "chan_try_send c v s =
     (let ch = chans s c in
      if ch_closed ch then Panic
      else if length (ch_buf ch) < ch_cap ch + ch_recvq ch
      then Ok (True, s\<lparr>chans := (chans s)(c := ch\<lparr>ch_buf := ch_buf ch @ [v]\<rparr>)\<rparr>)
      else Ok (False, s))"


text \<open>\<open>close(c)\<close>: panics when \<open>c\<close> is closed already.\<close>

definition chan_close :: "nat \<Rightarrow> world \<Rightarrow> world result" where
  "chan_close c s =
     (let ch = chans s c in
      if ch_closed ch then Panic
      else Ok (s\<lparr>chans := (chans s)(c := ch\<lparr>ch_closed := True\<rparr>)\<rparr>))"

subsection \<open>The decoder\<close>

text \<open>\<open>c.dec.Decode(&respHeader)\<close>.\<close>

definition decode_header :: "world \<Rightarrow> (string + responseHeader) \<times> world" where
  "decode_header s =
     (case incoming s of
        [] \<Rightarrow> (Inl errEOF, s)
      | r # rs \<Rightarrow>
          (case r of
             InHeader h \<Rightarrow> (Inr h, s\<lparr>incoming := rs\<rparr>)
           | _ \<Rightarrow> (Inl errDecode, s\<lparr>incoming := rs\<rparr>)))"

text \<open>
  \<open>c.dec.Decode(resp)\<close>, where \<open>resp\<close> points to the struct at address \<open>d\<close>:
  the body must be of the struct's type.
\<close>

definition decode_payload :: "nat \<Rightarrow> world \<Rightarrow> error \<times> world" where
  "decode_payload d s =
     (case incoming s of
        [] \<Rightarrow> (Some errEOF, s)
      | r # rs \<Rightarrow>
          (case (r, dests s d) of
             (InBody (joinResponse n), joinResponse _) \<Rightarrow>
               (None, s\<lparr>incoming := rs, dests := (dests s)(d := joinResponse n)\<rparr>)
           | (InBody (membersResponse ms), membersResponse _) \<Rightarrow>
               (None, s\<lparr>incoming := rs, dests := (dests s)(d := membersResponse ms)\<rparr>)
           | _ \<Rightarrow> (Some errDecode, s\<lparr>incoming := rs\<rparr>)))"

text \<open>\<open>var rec logRecord; mh.client.dec.Decode(&rec)\<close>.\<close>

definition decode_log :: "world \<Rightarrow> (string + string) \<times> world" where
  "decode_log s =
     (case incoming s of
        [] \<Rightarrow> (Inl errEOF, s)
      | r # rs \<Rightarrow>
          (case r of
             InLog l \<Rightarrow> (Inr l, s\<lparr>incoming := rs\<rparr>)
           | _ \<Rightarrow> (Inl errDecode, s\<lparr>incoming := rs\<rparr>)))"

text \<open>\<open>var rec map[string]interface{}; sh.client.dec.Decode(&rec)\<close>.\<close>

definition decode_event :: "world \<Rightarrow> (string + event) \<times> world" where
  "decode_event s =
     (case incoming s of
        [] \<Rightarrow> (Inl errEOF, s)
      | r # rs \<Rightarrow>
          (case r of
             InEvent e \<Rightarrow> (Inr e, s\<lparr>incoming := rs\<rparr>)
           | _ \<Rightarrow> (Inl errDecode, s\<lparr>incoming := rs\<rparr>)))"

definition log_Printf :: "string \<Rightarrow> world \<Rightarrow> world" where
  "log_Printf m s = s\<lparr>logs := logs s @ [m]\<rparr>"

subsection \<open>\<open>fmt.Errorf\<close> without operands\<close>

text \<open>
  \<open>strToError\<close> calls \<open>fmt.Errorf(s)\<close>: the string is the format and there is
  no operand. The package \<open>fmt\<close> copies the text between directives; a
  directive is \<open>%\<close>, flags, a width, a precision and a verb. With no operand
  \<open>%%\<close> prints \<open>%\<close>, a verb prints \<open>%!verb(MISSING)\<close>, a \<open>*\<close> as width or
  precision prints \<open>%!(BADWIDTH)\<close> or \<open>%!(BADPREC)\<close>, and a directive that
  the end of the string cuts short prints \<open>%!(NOVERB)\<close>. Explicit argument
  indexes (\<open>[n]\<close>), widths beyond a million and verbs outside ASCII are not
  modelled.
\<close>

definition is_flag :: "char \<Rightarrow> bool" where
  "is_flag c = (c \<in> set ''#0+- '')"

definition is_digit :: "char \<Rightarrow> bool" where
  "is_digit c = (c \<in> set ''0123456789'')"

fun fmt_width :: "string \<Rightarrow> string \<times> string" where
  "fmt_width [] = ([], [])"
| "fmt_width (c # cs) =
     (if c = CHR ''*'' then (''%!(BADWIDTH)'', cs) else ([], dropWhile is_digit (c # cs)))"

fun fmt_prec :: "string \<Rightarrow> string \<times> string" where
  "fmt_prec [] = ([], [])"
| "fmt_prec (c # cs) =
     (if c = CHR ''.''
      then (case cs of
              [] \<Rightarrow> ([], [])
            | d # ds \<Rightarrow>
                if d = CHR ''*'' then (''%!(BADPREC)'', ds) else ([], dropWhile is_digit cs))
      else ([], c # cs))"

fun fmt_verb :: "string \<Rightarrow> string \<times> string" where
  "fmt_verb [] = (''%!(NOVERB)'', [])"
| "fmt_verb (v # cs) =
     (if v = CHR ''%'' then (''%'', cs) else (''%!'' @ [v] @ ''(MISSING)'', cs))"

text \<open>What follows a \<open>%\<close>: the text printed for the directive and the rest of the format.\<close>

definition fmt_directive :: "string \<Rightarrow> string \<times> string" where
  "fmt_directive cs =
     (let (o1, r1) = fmt_width (dropWhile is_flag cs);
          (o2, r2) = fmt_prec r1;
          (o3, r3) = fmt_verb r2
      in (o1 @ o2 @ o3, r3))"

function fmt_Sprintf :: "string \<Rightarrow> string" where
  "fmt_Sprintf [] = []"
| "fmt_Sprintf (c # cs) =
     (if c = CHR ''%''
      then fst (fmt_directive cs) @ fmt_Sprintf (snd (fmt_directive cs))
      else c # fmt_Sprintf cs)"
  by pat_completeness auto
text \<open>\<open>fmt.Errorf(s)\<close>: an error whose message is the formatted string.\<close>

definition fmt_Errorf :: "string \<Rightarrow> error" where
  "fmt_Errorf s = Some (fmt_Sprintf s)"

subsection \<open>Small functions of the client\<close>

text \<open>\<open>strToError\<close> converts a string to an error if not blank.\<close>

definition strToError :: "string \<Rightarrow> error" where
  "strToError s = (if s \<noteq> [] then fmt_Errorf s else None)"

text \<open>\<open>getSeq\<close>: \<open>atomic.AddUint64(&c.seq, 1)\<close> returns the new value.\<close>

definition getSeq :: "world \<Rightarrow> seqno \<times> world" where
  "getSeq s = (seq s + 1, s\<lparr>seq := seq s + 1\<rparr>)"

text \<open>\<open>c.dispatchLock.Lock()\<close> and \<open>Unlock()\<close>.\<close>

definition lock_dispatch :: "world \<Rightarrow> world result" where
  "lock_dispatch s = (if dispatchLock s then Blocked else Ok (s\<lparr>dispatchLock := True\<rparr>))"

definition unlock_dispatch :: "world \<Rightarrow> world" where
  "unlock_dispatch s = s\<lparr>dispatchLock := False\<rparr>"

text \<open>\<open>&seqCallback{...}\<close>, \<open>&monitorHandler{...}\<close>, \<open>&streamHandler{...}\<close>.\<close>

definition new_obj :: "handler \<Rightarrow> world \<Rightarrow> nat \<times> world" where
  "new_obj h s =
     (next_obj s, s\<lparr>objs := (objs s)(next_obj s := h), next_obj := Suc (next_obj s)\<rparr>)"

text \<open>\<open>var resp joinResponse\<close>, \<open>var resp membersResponse\<close>.\<close>

definition new_dest :: "payload \<Rightarrow> world \<Rightarrow> nat \<times> world" where
  "new_dest v s =
     (next_dest s, s\<lparr>dests := (dests s)(next_dest s := v), next_dest := Suc (next_dest s)\<rparr>)"

subsection \<open>\<open>Cleanup\<close>\<close>

text \<open>
  \<open>monitorHandler.Cleanup\<close> on the object at address \<open>p\<close>. The send on
  \<open>initCh\<close> is a blocking one.
\<close>

definition mh_Cleanup :: "nat \<Rightarrow> world \<Rightarrow> world result" where
  "mh_Cleanup p s =
     (case objs s p of
        MonitorH mh \<Rightarrow>
          if \<not> mh_closed mh then
            rbind (if \<not> mh_init mh
                   then chan_send (mh_initCh mh) (MErr (Some ''Stream closed''))
                          (s\<lparr>objs := (objs s)(p := MonitorH (mh\<lparr>mh_init := True\<rparr>))\<rparr>)
                   else Ok s) (\<lambda>s1.
            rbind (chan_close (mh_logCh mh) s1) (\<lambda>s2.
            Ok (s2\<lparr>objs := (objs s2)(p := MonitorH (mh\<lparr>mh_init := True, mh_closed := True\<rparr>))\<rparr>)))
          else Ok s
      | _ \<Rightarrow> Ok s)"

text \<open>\<open>streamHandler.Cleanup\<close>.\<close>

definition sh_Cleanup :: "nat \<Rightarrow> world \<Rightarrow> world result" where
  "sh_Cleanup p s =
     (case objs s p of
        StreamH sh \<Rightarrow>
          if \<not> sh_closed sh then
            rbind (if \<not> sh_init sh
                   then chan_send (sh_initCh sh) (MErr (Some ''Stream closed''))
                          (s\<lparr>objs := (objs s)(p := StreamH (sh\<lparr>sh_init := True\<rparr>))\<rparr>)
                   else Ok s) (\<lambda>s1.
            rbind (chan_close (sh_eventCh sh) s1) (\<lambda>s2.
            Ok (s2\<lparr>objs := (objs s2)(p := StreamH (sh\<lparr>sh_init := True, sh_closed := True\<rparr>))\<rparr>)))
          else Ok s
      | _ \<Rightarrow> Ok s)"

text \<open>
  \<open>seqH.Cleanup()\<close> through the interface: the call is noted with the state
  of the dispatch lock, then the method of the object's type runs.
  \<open>seqCallback.Cleanup\<close> is empty.
\<close>

definition Cleanup :: "nat \<Rightarrow> world \<Rightarrow> world result" where
  "Cleanup p s =
     (let s1 = s\<lparr>trace := trace s @ [EvCleanup p (dispatchLock s)]\<rparr> in
      case objs s1 p of
        SeqCallback errCh resp \<Rightarrow> Ok s1
      | MonitorH mh \<Rightarrow> mh_Cleanup p s1
      | StreamH sh \<Rightarrow> sh_Cleanup p s1)"

subsection \<open>The dispatch table\<close>

text \<open>\<open>handleSeq\<close>: \<open>c.dispatch[seq] = handler\<close> under the lock.\<close>

definition handleSeq :: "seqno \<Rightarrow> nat \<Rightarrow> world \<Rightarrow> world result" where
  "handleSeq q p s =
     rbind (lock_dispatch s) (\<lambda>s1.
     Ok (unlock_dispatch (s1\<lparr>dispatch := AList.update q p (dispatch s1),
                               trace := trace s1 @ [EvRegister q p (dispatchLock s1)]\<rparr>)))"

text \<open>\<open>deregisterHandler\<close>: look up and delete under the lock, unlock, then \<open>Cleanup\<close>.\<close>

definition deregisterHandler :: "seqno \<Rightarrow> world \<Rightarrow> world result" where
  "deregisterHandler q s =
     rbind (lock_dispatch s) (\<lambda>s1.
     let seqH = map_of (dispatch s1) q;
         s2 = s1\<lparr>dispatch := AList.delete q (dispatch s1),
                 trace := trace s1 @ [EvDelete q (dispatchLock s1)]\<rparr>;
         s3 = unlock_dispatch s2
     in case seqH of
          Some p \<Rightarrow> Cleanup p s3
        | None \<Rightarrow> Ok s3)"

text \<open>The loop of \<open>deregisterAll\<close> over the values of the map, in the list's order.\<close>

fun cleanup_each :: "nat list \<Rightarrow> world \<Rightarrow> world result" where
  "cleanup_each [] s = Ok s"
| "cleanup_each (p # ps) s = rbind (Cleanup p s) (cleanup_each ps)"

text \<open>
  \<open>deregisterAll\<close>: the unlock is deferred, so the loop and the new map are
  inside the lock.
\<close>

definition deregisterAll :: "world \<Rightarrow> world result" where
  "deregisterAll s =
     rbind (lock_dispatch s) (\<lambda>s1.
     rbind (cleanup_each (map snd (dispatch s1)) s1) (\<lambda>s2.
     Ok (unlock_dispatch (s2\<lparr>dispatch := [],
                               trace := trace s2 @ [EvReset (dispatchLock s2)]\<rparr>))))"

subsection \<open>\<open>Handle\<close>\<close>

text \<open>
  The closure of \<open>genericRPC\<close>, with \<open>errCh\<close> and \<open>resp\<close> as it captured
  them. Both sends on \<open>errCh\<close> are blocking ones.
\<close>

definition sc_handler :: "nat \<Rightarrow> nat option \<Rightarrow> responseHeader \<Rightarrow> world \<Rightarrow> world result" where
  "sc_handler errCh resp respHeader s =
     (case resp of
        Some d \<Rightarrow>
          (case decode_payload d s of
             (Some err, s1) \<Rightarrow> chan_send errCh (MErr (Some err)) s1
           | (None, s1) \<Rightarrow> chan_send errCh (MErr (strToError (rError respHeader))) s1)
      | None \<Rightarrow> chan_send errCh (MErr (strToError (rError respHeader))) s)"

text \<open>\<open>monitorHandler.Handle\<close> on the object at address \<open>p\<close>.\<close>

definition mh_Handle :: "nat \<Rightarrow> responseHeader \<Rightarrow> world \<Rightarrow> world result" where
  "mh_Handle p resp s =
     (case objs s p of
        MonitorH mh \<Rightarrow>
          if \<not> mh_init mh then
            chan_send (mh_initCh mh) (MErr (strToError (rError resp)))
              (s\<lparr>objs := (objs s)(p := MonitorH (mh\<lparr>mh_init := True\<rparr>))\<rparr>)
          else
            (case decode_log s of
               (Inl err, s1) \<Rightarrow>
                 deregisterHandler (mh_seq mh)
                   (log_Printf (''[ERR] Failed to decode log: '' @ err) s1)
             | (Inr l, s1) \<Rightarrow>
                 rbind (chan_try_send (mh_logCh mh) (MLog l) s1) (\<lambda>(sent, s2).
                 Ok (if sent then s2
                     else log_Printf ''[ERR] Dropping log! Monitor channel full'' s2)))
      | _ \<Rightarrow> Ok s)"

text \<open>\<open>streamHandler.Handle\<close>.\<close>

definition sh_Handle :: "nat \<Rightarrow> responseHeader \<Rightarrow> world \<Rightarrow> world result" where
  "sh_Handle p resp s =
     (case objs s p of
        StreamH sh \<Rightarrow>
          if \<not> sh_init sh then
            chan_send (sh_initCh sh) (MErr (strToError (rError resp)))
              (s\<lparr>objs := (objs s)(p := StreamH (sh\<lparr>sh_init := True\<rparr>))\<rparr>)
          else
            (case decode_event s of
               (Inl err, s1) \<Rightarrow>
                 deregisterHandler (sh_seq sh)
                   (log_Printf (''[ERR] Failed to decode stream record: '' @ err) s1)
             | (Inr e, s1) \<Rightarrow>
                 rbind (chan_try_send (sh_eventCh sh) (MEvent e) s1) (\<lambda>(sent, s2).
                 Ok (if sent then s2
                     else log_Printf ''[ERR] Dropping event! Stream channel full'' s2)))
      | _ \<Rightarrow> Ok s)"

text \<open>
  \<open>seqL.Handle(respHeader)\<close> through the interface. \<open>seqCallback.Handle\<close>
  calls the closure.
\<close>

definition Handle :: "nat \<Rightarrow> responseHeader \<Rightarrow> world \<Rightarrow> world result" where
  "Handle p resp s =
     (let s1 = s\<lparr>trace := trace s @ [EvHandle p (dispatchLock s)]\<rparr> in
      case objs s1 p of
        SeqCallback errCh dst \<Rightarrow> sc_handler errCh dst resp s1
      | MonitorH mh \<Rightarrow> mh_Handle p resp s1
      | StreamH sh \<Rightarrow> sh_Handle p resp s1)"

text \<open>\<open>respondSeq\<close>: look up under the lock, unlock, then \<open>Handle\<close>; ignore if none.\<close>

definition respondSeq :: "seqno \<Rightarrow> responseHeader \<Rightarrow> world \<Rightarrow> world result" where
  "respondSeq q respHeader s =
     rbind (lock_dispatch s) (\<lambda>s1.
     let seqL = map_of (dispatch s1) q;
         s2 = unlock_dispatch (s1\<lparr>trace := trace s1 @ [EvLookup q (dispatchLock s1)]\<rparr>)
     in case seqL of
          Some p \<Rightarrow> Handle p respHeader s2
        | None \<Rightarrow> Ok s2)"

subsection \<open>\<open>send\<close> and \<open>Close\<close>\<close>

text \<open>
  The encoder writes into the buffered writer, and \<open>Flush\<close> moves the buffer
  to the connection. Once a write has failed the writer answers every write
  and flush with that error: \<open>write_err\<close>.
\<close>

definition enc_Encode :: "frame_out \<Rightarrow> world \<Rightarrow> error \<times> world" where
  "enc_Encode f s =
     (case write_err s of
        Some e \<Rightarrow> (Some e, s)
      | None \<Rightarrow> (None, s\<lparr>wbuf := wbuf s @ [f]\<rparr>))"

definition writer_Flush :: "world \<Rightarrow> error \<times> world" where
  "writer_Flush s =
     (case write_err s of
        Some e \<Rightarrow> (Some e, s)
      | None \<Rightarrow> (None, s\<lparr>wire_out := wire_out s @ wbuf s, wbuf := []\<rparr>))"

text \<open>\<open>send\<close>; \<open>obj\<close> is \<open>None\<close> for \<open>nil\<close>.\<close>

definition send :: "requestHeader \<Rightarrow> request option \<Rightarrow> world \<Rightarrow> error \<times> world" where
  "send header obj s =
     (if shutdown s then (clientClosed, s)
      else
        (case enc_Encode (OutHeader header) s of
           (Some err, s1) \<Rightarrow> (Some err, s1)
         | (None, s1) \<Rightarrow>
             (case (case obj of
                      Some b \<Rightarrow> enc_Encode (OutBody b) s1
                    | None \<Rightarrow> (None, s1)) of
                (Some err, s2) \<Rightarrow> (Some err, s2)
              | (None, s2) \<Rightarrow>
                  (case writer_Flush s2 of
                     (Some err, s3) \<Rightarrow> (Some err, s3)
                   | (None, s3) \<Rightarrow> (None, s3\<lparr>trace := trace s3 @ [EvSend header]\<rparr>)))))"

text \<open>\<open>close(c.shutdownCh)\<close>.\<close>

definition close_shutdownCh :: "world \<Rightarrow> world result" where
  "close_shutdownCh s =
     (if ch_closed (shutdownCh s) then Panic
      else Ok (s\<lparr>shutdownCh := (shutdownCh s)\<lparr>ch_closed := True\<rparr>\<rparr>))"

text \<open>\<open>Close\<close>; \<open>c.conn.Close()\<close> closes the connection and its answer is returned.\<close>

definition Close :: "world \<Rightarrow> (error \<times> world) result" where
  "Close s =
     (if \<not> shutdown s then
        rbind (close_shutdownCh (s\<lparr>shutdown := True\<rparr>)) (\<lambda>s1.
        rbind (deregisterAll s1) (\<lambda>s2.
        Ok (None, s2\<lparr>conn_open := False\<rparr>)))
      else Ok (None, s))"

subsection \<open>The listener\<close>

text \<open>
  One iteration of the loop of \<open>listen\<close>. A failed decode logs unless the
  client is shut down, leaves the loop, and the deferred \<open>Close\<close> runs as the
  goroutine returns. A goroutine that has returned does nothing.
\<close>

definition listen_step :: "world \<Rightarrow> world result" where
  "listen_step s =
     (if \<not> listening s then Ok s
      else
        (case decode_header s of
           (Inl err, s1) \<Rightarrow>
             (let s2 = (if \<not> shutdown s1
                        then log_Printf (''[ERR] agent.client: Failed to decode response header: '' @ err) s1
                        else s1)
              in rbind (Close s2) (\<lambda>(e, s3). Ok (s3\<lparr>listening := False\<rparr>)))
         | (Inr respHeader, s1) \<Rightarrow> respondSeq (rSeq respHeader) respHeader s1))"

text \<open>At most \<open>n\<close> iterations.\<close>

fun listen_n :: "nat \<Rightarrow> world \<Rightarrow> world result" where
  "listen_n 0 s = Ok s"
| "listen_n (Suc n) s = rbind (listen_step s) (listen_n n)"

text \<open>
  \<open>listen\<close>: the loop until a decode fails. Every iteration takes a record
  from the input or ends the goroutine, so one more iteration than there are
  records is the whole loop.
\<close>

definition listen :: "world \<Rightarrow> world result" where
  "listen s = listen_n (Suc (length (incoming s))) s"

subsection \<open>Waiting\<close>

text \<open>
  A receive can proceed on a channel that holds a value or is closed; from a
  closed and empty channel it yields the zero value, the \<open>nil\<close> error for the
  channels received from in this file.
\<close>

definition chan_can_recv :: "nat \<Rightarrow> world \<Rightarrow> bool" where
  "chan_can_recv c s = (ch_buf (chans s c) \<noteq> [] \<or> ch_closed (chans s c))"

definition chan_recv :: "nat \<Rightarrow> world \<Rightarrow> msg \<times> world" where
  "chan_recv c s =
     (case ch_buf (chans s c) of
        [] \<Rightarrow> (MErr None, s)
      | v # vs \<Rightarrow> (v, s\<lparr>chans := (chans s)(c := (chans s c)\<lparr>ch_buf := vs\<rparr>)\<rparr>))"

fun the_err :: "msg \<Rightarrow> error" where
  "the_err (MErr e) = e"
| "the_err (MLog l) = None"
| "the_err (MEvent e) = None"

text \<open>
  \<open>select { case v := <-c: ...; case <-c.shutdownCh: ... }\<close>. When both cases
  can proceed Go takes one at random: \<open>pick\<close> is that choice. The result is
  \<open>Some v\<close> for the first case and \<open>None\<close> for the second. With neither ready
  the goroutine waits.
\<close>

datatype branch = FirstCase | SecondCase

definition select_recv :: "nat \<Rightarrow> branch \<Rightarrow> world \<Rightarrow> (msg option \<times> world) result" where
  "select_recv c pick s =
     (let r1 = chan_can_recv c s; r2 = ch_closed (shutdownCh s) in
      if r1 \<and> (\<not> r2 \<or> pick = FirstCase)
      then (let (v, s1) = chan_recv c s in Ok (Some v, s1))
      else if r2 then Ok (None, s)
      else Blocked)"

text \<open>
  While a caller waits in its \<open>select\<close> on channel \<open>c\<close> the listener runs:
  iterations of the listener until a case of the \<open>select\<close> can proceed or the
  listener has returned.
\<close>

fun await_n :: "nat \<Rightarrow> nat \<Rightarrow> world \<Rightarrow> world result" where
  "await_n c 0 s = Ok s"
| "await_n c (Suc n) s =
     (if chan_can_recv c s \<or> ch_closed (shutdownCh s) \<or> \<not> listening s then Ok s
      else rbind (listen_step s) (await_n c n))"

definition await :: "nat \<Rightarrow> world \<Rightarrow> world result" where
  "await c s = await_n c (Suc (length (incoming s))) s"

text \<open>A call cut at its \<open>select\<close>: it has returned, or it waits with its local variables.\<close>

datatype ('r, 'w) pending = Returned 'r | Waiting 'w

subsection \<open>\<open>genericRPC\<close>\<close>

text \<open>
  \<open>genericRPC\<close> up to the \<open>select\<close>. When \<open>send\<close> fails the function
  returns, and the deferred \<open>deregisterHandler\<close> runs.
\<close>

definition genericRPC_begin ::
  "requestHeader \<Rightarrow> request option \<Rightarrow> nat option \<Rightarrow> world \<Rightarrow> ((error, nat) pending \<times> world) result" where
  "genericRPC_begin header req resp s =
     (let (errCh, s1) = make_chan 1 s;
          (p, s2) = new_obj (SeqCallback errCh resp) s1
      in rbind (handleSeq (Seq header) p s2) (\<lambda>s3.
         case send header req s3 of
           (Some err, s4) \<Rightarrow>
             rbind (deregisterHandler (Seq header) s4) (\<lambda>s5. Ok (Returned (Some err), s5))
         | (None, s4) \<Rightarrow> Ok (Waiting errCh, s4)))"

text \<open>The \<open>select\<close> of \<open>genericRPC\<close> and the deferred \<open>deregisterHandler\<close>.\<close>

definition genericRPC_end ::
  "requestHeader \<Rightarrow> nat \<Rightarrow> branch \<Rightarrow> world \<Rightarrow> (error \<times> world) result" where
  "genericRPC_end header errCh pick s =
     rbind (select_recv errCh pick s) (\<lambda>(v, s1).
     rbind (deregisterHandler (Seq header) s1) (\<lambda>s2.
     Ok (case v of Some m \<Rightarrow> the_err m | None \<Rightarrow> clientClosed, s2)))"

definition genericRPC ::
  "requestHeader \<Rightarrow> request option \<Rightarrow> nat option \<Rightarrow> branch \<Rightarrow> world \<Rightarrow> (error \<times> world) result" where
  "genericRPC header req resp pick s =
     rbind (genericRPC_begin header req resp s) (\<lambda>(r, s1).
     case r of
       Returned err \<Rightarrow> Ok (err, s1)
     | Waiting errCh \<Rightarrow> rbind (await errCh s1) (genericRPC_end header errCh pick))"

subsection \<open>The one-shot calls\<close>

definition ForceLeave :: "string \<Rightarrow> branch \<Rightarrow> world \<Rightarrow> (error \<times> world) result" where
  "ForceLeave node pick s =
     (let (q, s1) = getSeq s;
          header = \<lparr>Command = forceLeaveCommand, Seq = q\<rparr>;
          req = forceLeaveRequest node
      in genericRPC header (Some req) None pick s1)"

text \<open>\<open>int(resp.Num)\<close> of the struct at address \<open>d\<close>.\<close>

definition resp_Num :: "nat \<Rightarrow> world \<Rightarrow> int" where
  "resp_Num d s = (case dests s d of joinResponse n \<Rightarrow> sint n | membersResponse ms \<Rightarrow> 0)"

definition resp_Members :: "nat \<Rightarrow> world \<Rightarrow> member list" where
  "resp_Members d s = (case dests s d of membersResponse ms \<Rightarrow> ms | joinResponse n \<Rightarrow> [])"

definition Join :: "string list \<Rightarrow> bool \<Rightarrow> branch \<Rightarrow> world \<Rightarrow> ((int \<times> error) \<times> world) result" where
  "Join addrs replay pick s =
     (let (q, s1) = getSeq s;
          header = \<lparr>Command = joinCommand, Seq = q\<rparr>;
          req = joinRequest addrs replay;
          (resp, s2) = new_dest (joinResponse 0) s1
      in rbind (genericRPC header (Some req) (Some resp) pick s2) (\<lambda>(err, s3).
         Ok ((resp_Num resp s3, err), s3)))"

definition Members :: "branch \<Rightarrow> world \<Rightarrow> ((member list \<times> error) \<times> world) result" where
  "Members pick s =
     (let (q, s1) = getSeq s;
          header = \<lparr>Command = membersCommand, Seq = q\<rparr>;
          (resp, s2) = new_dest (membersResponse []) s1
      in rbind (genericRPC header None (Some resp) pick s2) (\<lambda>(err, s3).
         Ok ((resp_Members resp s3, err), s3)))"

definition MembersFiltered ::
  "(string \<times> string) list \<Rightarrow> string \<Rightarrow> branch \<Rightarrow> world \<Rightarrow> ((member list \<times> error) \<times> world) result" where
  "MembersFiltered tags status pick s =
     (let (q, s1) = getSeq s;
          header = \<lparr>Command = membersFilteredCommand, Seq = q\<rparr>;
          req = membersRequest tags status;
          (resp, s2) = new_dest (membersResponse []) s1
      in rbind (genericRPC header (Some req) (Some resp) pick s2) (\<lambda>(err, s3).
         Ok ((resp_Members resp s3, err), s3)))"

definition UserEvent :: "string \<Rightarrow> string \<Rightarrow> bool \<Rightarrow> branch \<Rightarrow> world \<Rightarrow> (error \<times> world) result" where
  "UserEvent name body coalesce pick s =
     (let (q, s1) = getSeq s;
          header = \<lparr>Command = eventCommand, Seq = q\<rparr>;
          req = eventRequest name body coalesce
      in genericRPC header (Some req) None pick s1)"

definition Leave :: "branch \<Rightarrow> world \<Rightarrow> (error \<times> world) result" where
  "Leave pick s =
     (let (q, s1) = getSeq s;
          header = \<lparr>Command = leaveCommand, Seq = q\<rparr>
      in genericRPC header None None pick s1)"

definition UpdateTags ::
  "(string \<times> string) list \<Rightarrow> string list \<Rightarrow> branch \<Rightarrow> world \<Rightarrow> (error \<times> world) result" where
  "UpdateTags tags delTags pick s =
     (let (q, s1) = getSeq s;
          header = \<lparr>Command = tagsCommand, Seq = q\<rparr>;
          req = tagsRequest tags delTags
      in genericRPC header (Some req) None pick s1)"

text \<open>\<open>handshake\<close>; \<open>ver\<close> stands for \<open>maxIPCVersion\<close>.\<close>

definition handshake :: "nat \<Rightarrow> branch \<Rightarrow> world \<Rightarrow> (error \<times> world) result" where
  "handshake ver pick s =
     (let (q, s1) = getSeq s;
          header = \<lparr>Command = handshakeCommand, Seq = q\<rparr>;
          req = handshakeRequest ver
      in genericRPC header (Some req) None pick s1)"

text \<open>\<open>Stop\<close>: deregister locally first to stop delivery.\<close>

definition Stop :: "seqno \<Rightarrow> branch \<Rightarrow> world \<Rightarrow> (error \<times> world) result" where
  "Stop handle pick s =
     rbind (deregisterHandler handle s) (\<lambda>s0.
     let (q, s1) = getSeq s0;
         header = \<lparr>Command = stopCommand, Seq = q\<rparr>;
         req = stopRequest handle
     in genericRPC header (Some req) None pick s1)"

subsection \<open>\<open>Monitor\<close> and \<open>Stream\<close>\<close>

text \<open>\<open>Monitor\<close> up to its \<open>select\<close>; \<open>ch\<close> is the caller's channel.\<close>

definition Monitor_begin ::
  "string \<Rightarrow> nat \<Rightarrow> world \<Rightarrow> ((seqno \<times> error, seqno \<times> nat) pending \<times> world) result" where
  "Monitor_begin level ch s =
     (let (q, s1) = getSeq s;
          header = \<lparr>Command = monitorCommand, Seq = q\<rparr>;
          req = monitorRequest level;
          (initCh, s2) = make_chan 1 s1;
          (handler, s3) = new_obj (MonitorH \<lparr>mh_closed = False, mh_init = False,
                             mh_initCh = initCh, mh_logCh = ch, mh_seq = q\<rparr>) s2
      in rbind (handleSeq q handler s3) (\<lambda>s4.
         case send header (Some req) s4 of
           (Some err, s5) \<Rightarrow>
             rbind (deregisterHandler q s5) (\<lambda>s6. Ok (Returned (0, Some err), s6))
         | (None, s5) \<Rightarrow> Ok (Waiting (q, initCh), s5)))"

text \<open>The \<open>select\<close> of \<open>Monitor\<close>.\<close>

definition Monitor_end ::
  "seqno \<Rightarrow> nat \<Rightarrow> branch \<Rightarrow> world \<Rightarrow> ((seqno \<times> error) \<times> world) result" where
  "Monitor_end q initCh pick s =
     rbind (select_recv initCh pick s) (\<lambda>(v, s1).
     case v of
       Some m \<Rightarrow> Ok ((q, the_err m), s1)
     | None \<Rightarrow> rbind (deregisterHandler q s1) (\<lambda>s2. Ok ((0, clientClosed), s2)))"

definition Monitor ::
  "string \<Rightarrow> nat \<Rightarrow> branch \<Rightarrow> world \<Rightarrow> ((seqno \<times> error) \<times> world) result" where
  "Monitor level ch pick s =
     rbind (Monitor_begin level ch s) (\<lambda>(r, s1).
     case r of
       Returned res \<Rightarrow> Ok (res, s1)
     | Waiting (q, initCh) \<Rightarrow> rbind (await initCh s1) (Monitor_end q initCh pick))"

definition Stream_begin ::
  "string \<Rightarrow> nat \<Rightarrow> world \<Rightarrow> ((seqno \<times> error, seqno \<times> nat) pending \<times> world) result" where
  "Stream_begin fltr ch s =
     (let (q, s1) = getSeq s;
          header = \<lparr>Command = streamCommand, Seq = q\<rparr>;
          req = streamRequest fltr;
          (initCh, s2) = make_chan 1 s1;
          (handler, s3) = new_obj (StreamH \<lparr>sh_closed = False, sh_init = False,
                             sh_initCh = initCh, sh_eventCh = ch, sh_seq = q\<rparr>) s2
      in rbind (handleSeq q handler s3) (\<lambda>s4.
         case send header (Some req) s4 of
           (Some err, s5) \<Rightarrow>
             rbind (deregisterHandler q s5) (\<lambda>s6. Ok (Returned (0, Some err), s6))
         | (None, s5) \<Rightarrow> Ok (Waiting (q, initCh), s5)))"

definition Stream_end ::
  "seqno \<Rightarrow> nat \<Rightarrow> branch \<Rightarrow> world \<Rightarrow> ((seqno \<times> error) \<times> world) result" where
  "Stream_end q initCh pick s =
     rbind (select_recv initCh pick s) (\<lambda>(v, s1).
     case v of
       Some m \<Rightarrow> Ok ((q, the_err m), s1)
     | None \<Rightarrow> rbind (deregisterHandler q s1) (\<lambda>s2. Ok ((0, clientClosed), s2)))"

definition Stream ::
  "string \<Rightarrow> nat \<Rightarrow> branch \<Rightarrow> world \<Rightarrow> ((seqno \<times> error) \<times> world) result" where
  "Stream fltr ch pick s =
     rbind (Stream_begin fltr ch s) (\<lambda>(r, s1).
     case r of
       Returned res \<Rightarrow> Ok (res, s1)
     | Waiting (q, initCh) \<Rightarrow> rbind (await initCh s1) (Stream_end q initCh pick))"

subsection \<open>\<open>NewRPCClient\<close>\<close>

text \<open>
  The client as \<open>NewRPCClient\<close> builds it on a connection whose input is
  \<open>input\<close>, with the listener started.
\<close>

definition new_client :: "record_in list \<Rightarrow> world" where
  "new_client input =
     \<lparr>seq = 0, conn_open = True, incoming = input, wbuf = [], wire_out = [],
      write_err = None, dispatch = [], dispatchLock = False, shutdown = False,
      shutdownCh = \<lparr>ch_buf = [], ch_cap = 0, ch_closed = False, ch_recvq = 0\<rparr>,
      objs = (\<lambda>p. SeqCallback 0 None), next_obj = 0,
      chans = (\<lambda>c. \<lparr>ch_buf = [], ch_cap = 0, ch_closed = False, ch_recvq = 0\<rparr>), next_chan = 0,
      dests = (\<lambda>d. joinResponse 0), next_dest = 0,
      logs = [], trace = [], listening = True\<rparr>"

text \<open>
  \<open>NewRPCClient\<close>. \<open>dial\<close> is the answer of \<open>net.Dial\<close>: an error, or a
  connection with its input. The result is the pointer returned (\<open>None\<close> for
  \<open>nil\<close>), the error, and the client as the function leaves it, returned or
  not.
\<close>

definition NewRPCClient ::
  "nat \<Rightarrow> string + record_in list \<Rightarrow> branch \<Rightarrow> (world option \<times> error \<times> world option) result" where
  "NewRPCClient ver dial pick =
     (case dial of
        Inl err \<Rightarrow> Ok (None, Some err, None)
      | Inr input \<Rightarrow>
          (let client = new_client input in
           rbind (handshake ver pick client) (\<lambda>(err, c1).
           if err \<noteq> None
           then rbind (Close c1) (\<lambda>(e, c2). Ok (None, err, Some c2))
           else Ok (Some c1, err, Some c1))))"

section \<open>Vocabulary of the properties\<close>

text \<open>
  The two streaming handlers have the same fields; these functions read
  them from either.
\<close>

fun streaming :: "handler \<Rightarrow> bool" where
  "streaming (SeqCallback c d) = False"
| "streaming (MonitorH mh) = True"
| "streaming (StreamH sh) = True"

fun h_closed :: "handler \<Rightarrow> bool" where
  "h_closed (SeqCallback c d) = False"
| "h_closed (MonitorH mh) = mh_closed mh"
| "h_closed (StreamH sh) = sh_closed sh"

fun h_init :: "handler \<Rightarrow> bool" where
  "h_init (SeqCallback c d) = False"
| "h_init (MonitorH mh) = mh_init mh"
| "h_init (StreamH sh) = sh_init sh"

fun h_initCh :: "handler \<Rightarrow> nat" where
  "h_initCh (SeqCallback c d) = c"
| "h_initCh (MonitorH mh) = mh_initCh mh"
| "h_initCh (StreamH sh) = sh_initCh sh"

text \<open>The caller's delivery channel.\<close>

fun h_outCh :: "handler \<Rightarrow> nat" where
  "h_outCh (SeqCallback c d) = c"
| "h_outCh (MonitorH mh) = mh_logCh mh"
| "h_outCh (StreamH sh) = sh_eventCh sh"

fun h_set_init :: "handler \<Rightarrow> handler" where
  "h_set_init (SeqCallback c d) = SeqCallback c d"
| "h_set_init (MonitorH mh) = MonitorH (mh\<lparr>mh_init := True\<rparr>)"
| "h_set_init (StreamH sh) = StreamH (sh\<lparr>sh_init := True\<rparr>)"

fun h_set_closed :: "handler \<Rightarrow> handler" where
  "h_set_closed (SeqCallback c d) = SeqCallback c d"
| "h_set_closed (MonitorH mh) = MonitorH (mh\<lparr>mh_closed := True\<rparr>)"
| "h_set_closed (StreamH sh) = StreamH (sh\<lparr>sh_closed := True\<rparr>)"

fun h_seq :: "handler \<Rightarrow> seqno" where
  "h_seq (SeqCallback c d) = 0"
| "h_seq (MonitorH mh) = mh_seq mh"
| "h_seq (StreamH sh) = sh_seq sh"

text \<open>The message a streaming handler delivers for a record, when it decodes.\<close>

fun h_msg :: "handler \<Rightarrow> record_in \<Rightarrow> msg option" where
  "h_msg (MonitorH mh) (InLog l) = Some (MLog l)"
| "h_msg (StreamH sh) (InEvent e) = Some (MEvent e)"
| "h_msg h r = None"


text \<open>The channel is open and its buffer has room: a send neither blocks nor panics.\<close>

definition has_room :: "nat \<Rightarrow> world \<Rightarrow> bool" where
  "has_room c s =
     (\<not> ch_closed (chans s c) \<and> length (ch_buf (chans s c)) < ch_cap (chans s c))"

text \<open>
  A send on the channel can proceed: the channel is open, and a receiver is
  parked on it or its buffer has room.
\<close>

definition can_send :: "nat \<Rightarrow> world \<Rightarrow> bool" where
  "can_send c s =
     (\<not> ch_closed (chans s c)
      \<and> length (ch_buf (chans s c)) < ch_cap (chans s c) + ch_recvq (chans s c))"

text \<open>The state a step ends in; a fresh client stands for a step that does not end.\<close>

definition world_of :: "('a \<times> world) result \<Rightarrow> world" where
  "world_of r = (case r of Ok (x, s) \<Rightarrow> s | Blocked \<Rightarrow> new_client [] | Panic \<Rightarrow> new_client [])"

subsection \<open>Example states\<close>

text \<open>
  A client whose caller made a channel of capacity 1 (channel 0) and called
  \<open>Monitor\<close> with it: the handler is object 0 under sequence number 1, its
  init channel is channel 1, and the call waits in its \<open>select\<close>.
\<close>

definition ex_subscribed :: "record_in list \<Rightarrow> world" where
  "ex_subscribed input =
     world_of (Monitor_begin ''DEBUG'' 0 (snd (make_chan 1 (new_client input))))"

text \<open>The same after the agent's first response has been handled.\<close>

definition ex_streaming :: "record_in list \<Rightarrow> world" where
  "ex_streaming input =
     world_of (rbind (listen_step (ex_subscribed (InHeader \<lparr>rSeq = 1, rError = []\<rparr> # input)))
                 (\<lambda>s. Ok ((), s)))"



text \<open>
  A client as \<open>NewRPCClient\<close> returns it: the agent answered the handshake,
  and \<open>input\<close> is what it sends next.
\<close>

definition ex_connected :: "record_in list \<Rightarrow> world" where
  "ex_connected input =
     world_of (handshake 1 FirstCase (new_client (InHeader \<lparr>rSeq = 1, rError = []\<rparr> # input)))"

text \<open>
  A connected client whose caller is inside \<open>Join\<close>, waiting in the \<open>select\<close>
  of \<open>genericRPC\<close>: the callback is object 1 under sequence number 2, its
  completion channel is channel 1 and the response struct is at address 0.
\<close>

definition ex_joining :: "record_in list \<Rightarrow> world" where
  "ex_joining input =
     world_of (genericRPC_begin \<lparr>Command = joinCommand, Seq = 2\<rparr>
                 (Some (joinRequest [''10.0.0.2:7946''] False)) (Some 0)
                 (snd (new_dest (joinResponse 0) (snd (getSeq (ex_connected input))))))"

subsection \<open>What the listener and the cleanup can change\<close>

text \<open>
  \<open>lstep s s'\<close> bounds what \<open>Cleanup\<close>, \<open>Handle\<close>, the removals from the
  dispatch table, \<open>Close\<close> and the listener do to a state: they add no entry
  to the dispatch table, allocate nothing, leave closed channels and the
  objects of one-shot callbacks as they are, extend the trace, consume input,
  never reopen the client, and write nothing to the connection.
\<close>

definition lstep :: "world \<Rightarrow> world \<Rightarrow> bool" where
  "lstep s s' \<longleftrightarrow>
     set (dispatch s') \<subseteq> set (dispatch s)
     \<and> seq s' = seq s
     \<and> next_chan s' = next_chan s
     \<and> next_obj s' = next_obj s
     \<and> (\<forall>c. ch_closed (chans s c) \<longrightarrow> chans s' c = chans s c)
     \<and> (\<forall>p. \<not> streaming (objs s p) \<longrightarrow> objs s' p = objs s p)
     \<and> (\<exists>tr. trace s' = trace s @ tr)
     \<and> dispatchLock s' = dispatchLock s
     \<and> length (incoming s') \<le> length (incoming s)
     \<and> (shutdown s \<longrightarrow> shutdown s')
     \<and> (shutdown s = ch_closed (shutdownCh s) \<longrightarrow> shutdown s' = ch_closed (shutdownCh s'))
     \<and> ((shutdown s \<longrightarrow> \<not> conn_open s) \<longrightarrow> (shutdown s' \<longrightarrow> \<not> conn_open s'))
     \<and> (listening s' \<longrightarrow> listening s)
     \<and> wire_out s' = wire_out s
     \<and> wbuf s' = wbuf s
     \<and> write_err s' = write_err s"

text \<open>
  The events a step added to the trace, and whether an event is a call of a
  handler's method made while the dispatch lock was held.
\<close>

definition new_events :: "world \<Rightarrow> world \<Rightarrow> trace_event list" where
  "new_events s s' = drop (length (trace s)) (trace s')"

fun under_lock :: "trace_event \<Rightarrow> bool" where
  "under_lock (EvHandle p b) = b"
| "under_lock (EvCleanup p b) = b"
| "under_lock (EvRegister q p b) = False"
| "under_lock (EvLookup q b) = False"
| "under_lock (EvDelete q b) = False"
| "under_lock (EvReset b) = False"
| "under_lock (EvSend h) = False"

text \<open>
  The discipline of the dispatch lock, for one event: the map is accessed with
  the lock held, and a handler's method is called with the lock free.
\<close>

fun lock_ok :: "trace_event \<Rightarrow> bool" where
  "lock_ok (EvHandle p b) = (\<not> b)"
| "lock_ok (EvCleanup p b) = (\<not> b)"
| "lock_ok (EvRegister q p b) = b"
| "lock_ok (EvLookup q b) = b"
| "lock_ok (EvDelete q b) = b"
| "lock_ok (EvReset b) = b"
| "lock_ok (EvSend h) = True"

text \<open>
  A connected client whose caller is inside \<open>Leave\<close>, waiting in the
  \<open>select\<close>: the callback is object 1 under sequence number 2 and its
  completion channel is channel 1. Then the same after one more iteration of
  the listener.
\<close>

definition ex_leaving :: "record_in list \<Rightarrow> world" where
  "ex_leaving input =
     world_of (genericRPC_begin \<lparr>Command = leaveCommand, Seq = 2\<rparr> None None
                 (snd (getSeq (ex_connected input))))"


text \<open>
  \<open>cstep s s'\<close> bounds what a whole call does to the parts of the state that
  are not its own: channels that were closed before the call stay as they
  are, the trace is extended, the dispatch lock is as before, and the client
  is not reopened.
\<close>

definition cstep :: "world \<Rightarrow> world \<Rightarrow> bool" where
  "cstep s s' \<longleftrightarrow>
     next_chan s \<le> next_chan s'
     \<and> (\<forall>c<next_chan s. ch_closed (chans s c) \<longrightarrow> chans s' c = chans s c)
     \<and> (\<exists>tr. trace s' = trace s @ tr)
     \<and> dispatchLock s' = dispatchLock s
     \<and> (shutdown s \<longrightarrow> shutdown s')
     \<and> (shutdown s = ch_closed (shutdownCh s) \<longrightarrow> shutdown s' = ch_closed (shutdownCh s'))
     \<and> ((shutdown s \<longrightarrow> \<not> conn_open s) \<longrightarrow> (shutdown s' \<longrightarrow> \<not> conn_open s'))"

text \<open>The sequence numbers with a handler.\<close>

definition keys :: "world \<Rightarrow> seqno set" where
  "keys s = fst ` set (dispatch s)"


subsection \<open>A caller's program\<close>

text \<open>
  The calls one caller makes, one after the other. Between two calls the
  caller may make a channel, and the listener may run some iterations.
\<close>

datatype api_call =
    CallForceLeave string
  | CallJoin "string list" bool
  | CallMembers
  | CallMembersFiltered "(string \<times> string) list" string
  | CallUserEvent string string bool
  | CallLeave
  | CallUpdateTags "(string \<times> string) list" "string list"
  | CallMonitor string nat
  | CallStream string nat
  | CallStop seqno
  | CallClose
  | MakeChan nat
  | ListenerRuns nat

text \<open>One call, with the choice its \<open>select\<close> makes; what it returns is dropped.\<close>

fun exec :: "api_call \<Rightarrow> branch \<Rightarrow> world \<Rightarrow> world result" where
  "exec (CallForceLeave node) pick s = rbind (ForceLeave node pick s) (\<lambda>(r, s'). Ok s')"
| "exec (CallJoin addrs replay) pick s = rbind (Join addrs replay pick s) (\<lambda>(r, s'). Ok s')"
| "exec CallMembers pick s = rbind (Members pick s) (\<lambda>(r, s'). Ok s')"
| "exec (CallMembersFiltered tags status) pick s =
     rbind (MembersFiltered tags status pick s) (\<lambda>(r, s'). Ok s')"
| "exec (CallUserEvent name body coalesce) pick s =
     rbind (UserEvent name body coalesce pick s) (\<lambda>(r, s'). Ok s')"
| "exec CallLeave pick s = rbind (Leave pick s) (\<lambda>(r, s'). Ok s')"
| "exec (CallUpdateTags tags delTags) pick s =
     rbind (UpdateTags tags delTags pick s) (\<lambda>(r, s'). Ok s')"
| "exec (CallMonitor level ch) pick s = rbind (Monitor level ch pick s) (\<lambda>(r, s'). Ok s')"
| "exec (CallStream fltr ch) pick s = rbind (Stream fltr ch pick s) (\<lambda>(r, s'). Ok s')"
| "exec (CallStop handle) pick s = rbind (Stop handle pick s) (\<lambda>(r, s'). Ok s')"
| "exec CallClose pick s = rbind (Close s) (\<lambda>(r, s'). Ok s')"
| "exec (MakeChan n) pick s = Ok (snd (make_chan n s))"
| "exec (ListenerRuns n) pick s = listen_n n s"

fun run :: "(api_call \<times> branch) list \<Rightarrow> world \<Rightarrow> world result" where
  "run [] s = Ok s"
| "run (c # cs) s = rbind (exec (fst c) (snd c) s) (run cs)"

text \<open>
  A connected client that was closed, with a channel (channel 1) that the
  caller made afterwards.
\<close>

definition ex_closed :: world where
  "ex_closed = snd (make_chan 1 (world_of (Close (ex_connected []))))"

text \<open>
  A connected client whose caller made a channel (channel 1) and called
  \<open>Monitor\<close> with it: the request went out under sequence number 2, and the
  init channel is channel 2. Before the caller reached its \<open>select\<close> the
  connection ended, and the listener shut the client down.
\<close>

definition ex_orphaned :: world where
  "ex_orphaned =
     world_of (rbind (rbind (Monitor_begin ''DEBUG'' 1 (snd (make_chan 1 (ex_connected []))))
                        (\<lambda>(x, s1). listen_step s1))
                 (\<lambda>s. Ok ((), s)))"

text \<open>A caller that makes a channel, subscribes to the logs with it, and calls \<open>Stop(0)\<close>.\<close>

definition ex_program :: "(api_call \<times> branch) list" where
  "ex_program = [(MakeChan 1, FirstCase), (CallMonitor ''DEBUG'' 1, FirstCase),
                 (CallStop 0, FirstCase)]"

section \<open>Termination of the formatter\<close>

lemma fmt_width_length: "length (snd (fmt_width cs)) \<le> length cs"
proof (cases cs)
  case Nil
  then show ?thesis by simp
next
  case (Cons c cs')
  have "length (dropWhile is_digit (c # cs')) \<le> length (c # cs')"
    by (rule length_dropWhile_le)
  with Cons show ?thesis by simp
qed

lemma fmt_prec_length: "length (snd (fmt_prec cs)) \<le> length cs"
proof (cases cs)
  case Nil
  then show ?thesis by simp
next
  case (Cons c cs')
  have "length (dropWhile is_digit cs') \<le> length cs'"
    by (rule length_dropWhile_le)
  with Cons show ?thesis
    by (cases cs') (simp_all del: dropWhile.simps)
qed

lemma fmt_verb_length: "length (snd (fmt_verb cs)) \<le> length cs"
  by (cases cs) simp_all

lemma fmt_directive_length: "length (snd (fmt_directive cs)) \<le> length cs"
proof -
  have a: "length (dropWhile is_flag cs) \<le> length cs"
    by (rule length_dropWhile_le)
  have b: "length (snd (fmt_width (dropWhile is_flag cs))) \<le> length (dropWhile is_flag cs)"
    by (rule fmt_width_length)
  have c: "length (snd (fmt_prec (snd (fmt_width (dropWhile is_flag cs)))))
             \<le> length (snd (fmt_width (dropWhile is_flag cs)))"
    by (rule fmt_prec_length)
  have d: "length (snd (fmt_verb (snd (fmt_prec (snd (fmt_width (dropWhile is_flag cs)))))))
             \<le> length (snd (fmt_prec (snd (fmt_width (dropWhile is_flag cs)))))"
    by (rule fmt_verb_length)
  have "snd (fmt_directive cs)
          = snd (fmt_verb (snd (fmt_prec (snd (fmt_width (dropWhile is_flag cs))))))"
    by (simp add: fmt_directive_def split: prod.splits)
  with a b c d show ?thesis by simp
qed

termination fmt_Sprintf
proof (relation "measure length")
  show "wf (measure length)" by simp
next
  fix c :: char and cs :: string
  have "length (snd (fmt_directive cs)) \<le> length cs"
    by (rule fmt_directive_length)
  then show "(snd (fmt_directive cs), c # cs) \<in> measure length" by simp
next
  fix c :: char and cs :: string
  show "(cs, c # cs) \<in> measure length" by simp
qed

section \<open>Basic facts\<close>

lemma rbind_Ok [simp]: "rbind (Ok x) f = f x"
  by (simp add: rbind_def)

lemma rbind_Blocked [simp]: "rbind Blocked f = Blocked"
  by (simp add: rbind_def)

lemma rbind_Panic [simp]: "rbind Panic f = Panic"
  by (simp add: rbind_def)

lemma rbind_eq_Ok: "rbind m f = Ok y \<longleftrightarrow> (\<exists>x. m = Ok x \<and> f x = Ok y)"
  by (cases m) simp_all

section \<open>The streaming handlers\<close>

lemma Cleanup_closed:
  assumes "h_closed (objs s p)"
  shows "Cleanup p s = Ok (s\<lparr>trace := trace s @ [EvCleanup p (dispatchLock s)]\<rparr>)"
  using assms
  by (cases "objs s p") (simp_all add: Cleanup_def mh_Cleanup_def sh_Cleanup_def)

lemma Cleanup_first:
  assumes "objs s p = h" and "streaming h" and "\<not> h_closed h"
      and "\<not> ch_closed (chans s (h_outCh h))"
      and "\<not> h_init h \<longrightarrow> has_room (h_initCh h) s"
  shows "\<exists>s1. Cleanup p s = Ok s1
           \<and> objs s1 p = h_set_closed (h_set_init h)
           \<and> ch_closed (chans s1 (h_outCh h))
           \<and> ch_buf (chans s1 (h_initCh h))
               = ch_buf (chans s (h_initCh h))
                   @ (if h_init h then [] else [MErr (Some ''Stream closed'')])"
  using assms
  by (cases h)
     (auto simp add: Cleanup_def mh_Cleanup_def sh_Cleanup_def chan_send_def chan_close_def
        has_room_def Let_def)

lemma h_closed_set_closed: "streaming h \<Longrightarrow> h_closed (h_set_closed (h_set_init h))"
  by (cases h) simp_all

text \<open>
  C6. \<open>Cleanup\<close> on a streaming handler is idempotent. On a handler that is
  not closed, whose delivery channel is open and whose init channel has room
  if setup never completed, the first call returns; it leaves the handler
  closed, the delivery channel closed, and the init channel with one more
  value, the failure "Stream closed", exactly when \<open>init\<close> was false. A call
  on a closed handler changes nothing but the trace: no field of the handler,
  no channel.
\<close>

theorem Cleanup_idempotent:
  assumes "objs s p = h" and "streaming h" and "\<not> h_closed h"
      and "\<not> ch_closed (chans s (h_outCh h))"
      and "\<not> h_init h \<longrightarrow> has_room (h_initCh h) s"
  shows "\<exists>s1. Cleanup p s = Ok s1
           \<and> objs s1 p = h_set_closed (h_set_init h)
           \<and> h_closed (objs s1 p)
           \<and> ch_closed (chans s1 (h_outCh h))
           \<and> ch_buf (chans s1 (h_initCh h))
               = ch_buf (chans s (h_initCh h))
                   @ (if h_init h then [] else [MErr (Some ''Stream closed'')])
           \<and> Cleanup p s1 = Ok (s1\<lparr>trace := trace s1 @ [EvCleanup p (dispatchLock s1)]\<rparr>)
           \<and> (\<forall>s2. h_closed (objs s2 p) \<longrightarrow>
                  Cleanup p s2 = Ok (s2\<lparr>trace := trace s2 @ [EvCleanup p (dispatchLock s2)]\<rparr>))"
proof -
  from Cleanup_first [OF assms] obtain s1 where
    s1: "Cleanup p s = Ok s1" "objs s1 p = h_set_closed (h_set_init h)"
        "ch_closed (chans s1 (h_outCh h))"
        "ch_buf (chans s1 (h_initCh h))
           = ch_buf (chans s (h_initCh h))
               @ (if h_init h then [] else [MErr (Some ''Stream closed'')])"
    by blast
  have c: "h_closed (objs s1 p)"
    using s1(2) assms(2) by (simp add: h_closed_set_closed)
  have again: "Cleanup p s1 = Ok (s1\<lparr>trace := trace s1 @ [EvCleanup p (dispatchLock s1)]\<rparr>)"
    using c by (rule Cleanup_closed)
  have every: "\<forall>s2. h_closed (objs s2 p) \<longrightarrow>
                  Cleanup p s2 = Ok (s2\<lparr>trace := trace s2 @ [EvCleanup p (dispatchLock s2)]\<rparr>)"
    by (simp add: Cleanup_closed)
  from s1 c again every show ?thesis by blast
qed

theorem Cleanup_idempotent_witness:
  "streaming (objs (ex_subscribed []) 0)
   \<and> \<not> h_closed (objs (ex_subscribed []) 0)
   \<and> \<not> h_init (objs (ex_subscribed []) 0)
   \<and> (\<exists>s1. Cleanup 0 (ex_subscribed []) = Ok s1
          \<and> h_closed (objs s1 0)
          \<and> ch_closed (chans s1 0)
          \<and> ch_buf (chans s1 1) = [MErr (Some ''Stream closed'')]
          \<and> Cleanup 0 s1 = Ok (s1\<lparr>trace := trace s1 @ [EvCleanup 0 (dispatchLock s1)]\<rparr>))"
proof -
  have a: "streaming (objs (ex_subscribed []) 0)" by code_simp
  have b: "\<not> h_closed (objs (ex_subscribed []) 0)" by code_simp
  have c: "\<not> ch_closed (chans (ex_subscribed []) (h_outCh (objs (ex_subscribed []) 0)))"
    by code_simp
  have d: "\<not> h_init (objs (ex_subscribed []) 0)
             \<longrightarrow> has_room (h_initCh (objs (ex_subscribed []) 0)) (ex_subscribed [])"
    by code_simp
  have e: "\<not> h_init (objs (ex_subscribed []) 0)" by code_simp
  have f: "h_outCh (objs (ex_subscribed []) 0) = 0" by code_simp
  have g: "h_initCh (objs (ex_subscribed []) 0) = 1" by code_simp
  have h: "ch_buf (chans (ex_subscribed []) 1) = []" by code_simp
  from Cleanup_idempotent [OF refl a b c d] obtain s1 where
    "Cleanup 0 (ex_subscribed []) = Ok s1"
    "h_closed (objs s1 0)"
    "ch_closed (chans s1 (h_outCh (objs (ex_subscribed []) 0)))"
    "ch_buf (chans s1 (h_initCh (objs (ex_subscribed []) 0)))
       = ch_buf (chans (ex_subscribed []) (h_initCh (objs (ex_subscribed []) 0)))
           @ (if h_init (objs (ex_subscribed []) 0) then [] else [MErr (Some ''Stream closed'')])"
    "Cleanup 0 s1 = Ok (s1\<lparr>trace := trace s1 @ [EvCleanup 0 (dispatchLock s1)]\<rparr>)"
    by blast
  then show ?thesis using a b e f g h by auto
qed

lemma has_room_can_send: "has_room c s \<Longrightarrow> can_send c s"
  by (simp add: has_room_def can_send_def)


lemma decode_log_Cons:
  "decode_log s = (case incoming s of
                     [] \<Rightarrow> (Inl errEOF, s)
                   | InLog l # rs \<Rightarrow> (Inr l, s\<lparr>incoming := rs\<rparr>)
                   | r # rs \<Rightarrow> (Inl errDecode, s\<lparr>incoming := rs\<rparr>))"
  by (simp add: decode_log_def split: list.splits record_in.splits)

lemma decode_event_Cons:
  "decode_event s = (case incoming s of
                     [] \<Rightarrow> (Inl errEOF, s)
                   | InEvent e # rs \<Rightarrow> (Inr e, s\<lparr>incoming := rs\<rparr>)
                   | r # rs \<Rightarrow> (Inl errDecode, s\<lparr>incoming := rs\<rparr>))"
  by (simp add: decode_event_def split: list.splits record_in.splits)





section \<open>One-shot calls: the error of a response\<close>

lemma fmt_Sprintf_plain: "CHR ''%'' \<notin> set s \<Longrightarrow> fmt_Sprintf s = s"
  by (induction s) auto

lemma strToError_None_iff: "strToError s = None \<longleftrightarrow> s = []"
  by (simp add: strToError_def fmt_Errorf_def)

lemma strToError_plain: "s \<noteq> [] \<Longrightarrow> CHR ''%'' \<notin> set s \<Longrightarrow> strToError s = Some s"
  by (simp add: strToError_def fmt_Errorf_def fmt_Sprintf_plain)

text \<open>
  C7. The error of a one-shot call is \<open>nil\<close> exactly when the error string of
  the response is empty, and the message is the string itself when the string
  has no \<open>%\<close> (\<open>strToError_None_iff\<close>, \<open>strToError_plain\<close>). But
  \<open>strToError\<close> passes the string to \<open>fmt.Errorf\<close> as the format: when the
  agent reports the error \<open>unknown node a%b\<close> to a \<open>ForceLeave\<close>, the caller's
  error reads \<open>unknown node a%!b(MISSING)\<close>.
\<close>

theorem strToError_formats_the_message:
  "rbind (ForceLeave ''a%b'' FirstCase
            (ex_connected [InHeader \<lparr>rSeq = 2, rError = ''unknown node a%b''\<rparr>]))
         (\<lambda>(err, s). Ok err)
     = Ok (Some ''unknown node a%!b(MISSING)'')
   \<and> strToError ''unknown node a%b'' \<noteq> Some ''unknown node a%b''"
  by code_simp

lemma decode_payload_Nil: "incoming s = [] \<Longrightarrow> decode_payload d s = (Some errEOF, s)"
  by (simp add: decode_payload_def)

lemma decode_payload_Cons:
  "incoming s = r # rs \<Longrightarrow>
   decode_payload d s =
     (case r of
        InBody b \<Rightarrow>
          (case b of
             joinResponse n \<Rightarrow>
               (case dests s d of
                  joinResponse n0 \<Rightarrow>
                    (None, s\<lparr>incoming := rs, dests := (dests s)(d := joinResponse n)\<rparr>)
                | membersResponse ms0 \<Rightarrow> (Some errDecode, s\<lparr>incoming := rs\<rparr>))
           | membersResponse ms \<Rightarrow>
               (case dests s d of
                  joinResponse n0 \<Rightarrow> (Some errDecode, s\<lparr>incoming := rs\<rparr>)
                | membersResponse ms0 \<Rightarrow>
                    (None, s\<lparr>incoming := rs, dests := (dests s)(d := membersResponse ms)\<rparr>)))
      | _ \<Rightarrow> (Some errDecode, s\<lparr>incoming := rs\<rparr>))"
  by (cases r) (simp_all add: decode_payload_def)

lemma decode_payload_trace:
  "decode_payload d (s\<lparr>trace := t\<rparr>)
     = (fst (decode_payload d s), (snd (decode_payload d s))\<lparr>trace := t\<rparr>)"
proof (cases "incoming s")
  case Nil
  then show ?thesis by (simp add: decode_payload_Nil)
next
  case (Cons r rs)
  then have c: "incoming (s\<lparr>trace := t\<rparr>) = r # rs" by simp
  show ?thesis
  proof (cases r)
    case (InBody b)
    show ?thesis
      by (cases b; cases "dests s d")
         (simp_all add: decode_payload_Cons [OF c] decode_payload_Cons [OF Cons] InBody)
  qed (simp_all add: decode_payload_Cons [OF c] decode_payload_Cons [OF Cons])
qed

lemma decode_payload_shape:
  "snd (decode_payload d s)
     = s\<lparr>incoming := tl (incoming s), dests := dests (snd (decode_payload d s))\<rparr>
   \<and> (fst (decode_payload d s) \<noteq> None \<longrightarrow> dests (snd (decode_payload d s)) = dests s)"
proof (cases "incoming s")
  case Nil
  then show ?thesis by (simp add: decode_payload_Nil)
next
  case (Cons r rs)
  show ?thesis
  proof (cases r)
    case (InBody b)
    with Cons show ?thesis
      by (cases b; cases "dests s d") (simp_all add: decode_payload_Cons [OF Cons])
  qed (use Cons in \<open>simp_all add: decode_payload_Cons [OF Cons]\<close>)
qed

lemma decode_payload_fail:
  assumes "fst (decode_payload d s) = Some err"
  shows "snd (decode_payload d s) = s\<lparr>incoming := tl (incoming s)\<rparr>"
proof -
  have a: "snd (decode_payload d s)
          = s\<lparr>incoming := tl (incoming s), dests := dests (snd (decode_payload d s))\<rparr>"
    by (rule decode_payload_shape [THEN conjunct1])
  have b: "dests (snd (decode_payload d s)) = dests s"
    using decode_payload_shape [of d s, THEN conjunct2] assms by blast
  show ?thesis by (subst a) (simp add: b)
qed

lemma decode_payload_chans: "chans (snd (decode_payload d s)) = chans s"
proof -
  have a: "snd (decode_payload d s)
          = s\<lparr>incoming := tl (incoming s), dests := dests (snd (decode_payload d s))\<rparr>"
    by (rule decode_payload_shape [THEN conjunct1])
  show ?thesis by (subst a) simp
qed

lemma sc_Handle_decode_fail:
  assumes "objs s p = SeqCallback errCh (Some d)"
      and "fst (decode_payload d s) = Some err"
      and "has_room errCh s"
  shows "Handle p resp s =
           Ok (s\<lparr>trace := trace s @ [EvHandle p (dispatchLock s)],
                 incoming := tl (incoming s),
                 chans := (chans s)(errCh := (chans s errCh)
                    \<lparr>ch_buf := ch_buf (chans s errCh) @ [MErr (Some err)]\<rparr>)\<rparr>)"
proof -
  have "decode_payload d s = (Some err, s\<lparr>incoming := tl (incoming s)\<rparr>)"
    using assms(2) decode_payload_fail [OF assms(2)] by (cases "decode_payload d s") simp
  with assms(1,3) show ?thesis
    by (simp add: Handle_def sc_handler_def decode_payload_trace chan_send_def has_room_def
          Let_def)
qed

lemma sc_Handle_decode_ok:
  assumes "objs s p = SeqCallback errCh (Some d)"
      and "fst (decode_payload d s) = None"
      and "has_room errCh s"
  shows "\<exists>s1. Handle p resp s = Ok s1
           \<and> ch_buf (chans s1 errCh)
               = ch_buf (chans s errCh) @ [MErr (strToError (rError resp))]"
proof -
  obtain s' where d: "decode_payload d s = (None, s')"
    using assms(2) by (cases "decode_payload d s") simp
  have "chans s' = chans s"
    using decode_payload_chans [of d s] d by simp
  with assms(1,3) d show ?thesis
    by (simp add: Handle_def sc_handler_def decode_payload_trace chan_send_def has_room_def
          Let_def)
qed

lemma genericRPC_end_value:
  assumes "genericRPC_end header errCh pick s = Ok (e, s2)"
      and "ch_buf (chans s errCh) = v # vs"
      and "\<not> ch_closed (shutdownCh s) \<or> pick = FirstCase"
  shows "e = the_err v"
  using assms
  by (auto simp add: genericRPC_end_def select_recv_def chan_can_recv_def chan_recv_def
        rbind_eq_Ok Let_def split: if_splits)

text \<open>
  C9. The handler of a one-shot call with a response destination decodes the
  payload before it looks at the error string of the header. When that
  decode fails, whatever the error string is, the handler takes the record
  from the input and puts the decode error on the completion channel, and
  the caller, whose \<open>select\<close> takes the completion channel, returns the decode
  error. The error string is converted only when the payload decoded.
\<close>

theorem callback_decodes_before_error:
  assumes "objs s p = SeqCallback errCh (Some d)"
      and "has_room errCh s" and "ch_buf (chans s errCh) = []"
  shows "(fst (decode_payload d s) = Some err \<longrightarrow>
            (\<exists>s1. Handle p resp s = Ok s1
               \<and> incoming s1 = tl (incoming s)
               \<and> ch_buf (chans s1 errCh) = [MErr (Some err)]
               \<and> (\<forall>header pick e s2.
                     genericRPC_end header errCh pick s1 = Ok (e, s2)
                     \<and> (\<not> ch_closed (shutdownCh s1) \<or> pick = FirstCase)
                     \<longrightarrow> e = Some err)))
       \<and> (fst (decode_payload d s) = None \<longrightarrow>
            (\<exists>s1. Handle p resp s = Ok s1
               \<and> ch_buf (chans s1 errCh) = [MErr (strToError (rError resp))]))"
proof (intro conjI impI)
  assume f: "fst (decode_payload d s) = Some err"
  let ?s1 = "s\<lparr>trace := trace s @ [EvHandle p (dispatchLock s)],
                 incoming := tl (incoming s),
                 chans := (chans s)(errCh := (chans s errCh)
                    \<lparr>ch_buf := ch_buf (chans s errCh) @ [MErr (Some err)]\<rparr>)\<rparr>"
  have h: "Handle p resp s = Ok ?s1"
    using assms(1) f assms(2) by (rule sc_Handle_decode_fail)
  have b: "ch_buf (chans ?s1 errCh) = [MErr (Some err)]"
    using assms(3) by simp
  have "\<forall>header pick e s2.
          genericRPC_end header errCh pick ?s1 = Ok (e, s2)
          \<and> (\<not> ch_closed (shutdownCh ?s1) \<or> pick = FirstCase)
          \<longrightarrow> e = Some err"
  proof (intro allI impI)
    fix header pick e s2
    assume "genericRPC_end header errCh pick ?s1 = Ok (e, s2)
              \<and> (\<not> ch_closed (shutdownCh ?s1) \<or> pick = FirstCase)"
    with genericRPC_end_value [of header errCh pick ?s1 e s2 "MErr (Some err)" "[]"] b
    show "e = Some err" by simp
  qed
  with h b show "\<exists>s1. Handle p resp s = Ok s1
               \<and> incoming s1 = tl (incoming s)
               \<and> ch_buf (chans s1 errCh) = [MErr (Some err)]
               \<and> (\<forall>header pick e s2.
                     genericRPC_end header errCh pick s1 = Ok (e, s2)
                     \<and> (\<not> ch_closed (shutdownCh s1) \<or> pick = FirstCase)
                     \<longrightarrow> e = Some err)"
    by (intro exI [of _ ?s1]) simp
next
  assume f: "fst (decode_payload d s) = None"
  from sc_Handle_decode_ok [OF assms(1) f assms(2), of resp] assms(3)
  show "\<exists>s1. Handle p resp s = Ok s1
               \<and> ch_buf (chans s1 errCh) = [MErr (strToError (rError resp))]"
    by simp
qed

theorem callback_decodes_before_error_witness:
  "objs (ex_joining [Malformed]) 1 = SeqCallback 1 (Some 0)
   \<and> has_room 1 (ex_joining [Malformed])
   \<and> ch_buf (chans (ex_joining [Malformed]) 1) = []
   \<and> fst (decode_payload 0 (ex_joining [Malformed])) = Some errDecode
   \<and> (\<exists>s1. Handle 1 \<lparr>rSeq = 2, rError = ''join failed''\<rparr> (ex_joining [Malformed]) = Ok s1
          \<and> incoming s1 = []
          \<and> ch_buf (chans s1 1) = [MErr (Some errDecode)])
   \<and> rbind (Join [''10.0.0.2:7946''] False FirstCase
               (ex_connected [InHeader \<lparr>rSeq = 2, rError = ''join failed''\<rparr>, Malformed]))
            (\<lambda>(r, s). Ok r)
        = Ok (0, Some errDecode)"
proof -
  let ?s = "ex_joining [Malformed]"
  have a: "objs ?s 1 = SeqCallback 1 (Some 0)" by code_simp
  have b: "has_room 1 ?s" by code_simp
  have c: "ch_buf (chans ?s 1) = []" by code_simp
  have d: "fst (decode_payload 0 ?s) = Some errDecode" by code_simp
  have e: "tl (incoming ?s) = []" by code_simp
  have f: "rbind (Join [''10.0.0.2:7946''] False FirstCase
               (ex_connected [InHeader \<lparr>rSeq = 2, rError = ''join failed''\<rparr>, Malformed]))
            (\<lambda>(r, s). Ok r)
        = Ok (0, Some errDecode)"
    by code_simp
  from callback_decodes_before_error
         [where resp = "\<lparr>rSeq = 2, rError = ''join failed''\<rparr>" and err = errDecode, OF a b c] d
  have "\<exists>s1. Handle 1 \<lparr>rSeq = 2, rError = ''join failed''\<rparr> ?s = Ok s1
          \<and> incoming s1 = tl (incoming ?s)
          \<and> ch_buf (chans s1 1) = [MErr (Some errDecode)]"
    by blast
  with a b c d e f show ?thesis by simp
qed

section \<open>Frame properties\<close>

lemma lstep_refl: "lstep s s"
  by (simp add: lstep_def)

lemma lstep_trans:
  assumes "lstep s s1" and "lstep s1 s2"
  shows "lstep s s2"
  unfolding lstep_def
proof (intro conjI)
  show "set (dispatch s2) \<subseteq> set (dispatch s)"
    using assms unfolding lstep_def by blast
  show "seq s2 = seq s" "next_chan s2 = next_chan s" "next_obj s2 = next_obj s"
       "dispatchLock s2 = dispatchLock s"
    using assms unfolding lstep_def by simp_all
  show "\<forall>c. ch_closed (chans s c) \<longrightarrow> chans s2 c = chans s c"
    using assms unfolding lstep_def by metis
  show "\<forall>p. \<not> streaming (objs s p) \<longrightarrow> objs s2 p = objs s p"
    using assms unfolding lstep_def by metis
  show "\<exists>tr. trace s2 = trace s @ tr"
    using assms unfolding lstep_def by (metis append.assoc)
  show "length (incoming s2) \<le> length (incoming s)"
    using assms unfolding lstep_def by linarith
  show "shutdown s \<longrightarrow> shutdown s2"
    using assms unfolding lstep_def by blast
  show "shutdown s = ch_closed (shutdownCh s) \<longrightarrow> shutdown s2 = ch_closed (shutdownCh s2)"
    using assms unfolding lstep_def by blast
  show "(shutdown s \<longrightarrow> \<not> conn_open s) \<longrightarrow> (shutdown s2 \<longrightarrow> \<not> conn_open s2)"
    using assms unfolding lstep_def by blast
  show "listening s2 \<longrightarrow> listening s"
    using assms unfolding lstep_def by blast
  show "wire_out s2 = wire_out s" "wbuf s2 = wbuf s" "write_err s2 = write_err s"
    using assms unfolding lstep_def by simp_all
qed

lemma lstep_trace: "lstep s (s\<lparr>trace := trace s @ tr\<rparr>)"
  by (simp add: lstep_def)

lemma lstep_Cleanup: "Cleanup p s = Ok s' \<Longrightarrow> lstep s s'"
  by (cases "objs s p")
     (auto simp add: Cleanup_def mh_Cleanup_def sh_Cleanup_def chan_send_def chan_close_def
        lstep_def rbind_eq_Ok Let_def split: if_splits)


lemma lock_dispatch_Ok:
  "lock_dispatch s = Ok s1 \<longleftrightarrow> \<not> dispatchLock s \<and> s1 = s\<lparr>dispatchLock := True\<rparr>"
  by (auto simp add: lock_dispatch_def)

lemma lstep_deregisterHandler: "deregisterHandler q s = Ok s' \<Longrightarrow> lstep s s'"
proof -
  assume a: "deregisterHandler q s = Ok s'"
  let ?s3 = "s\<lparr>dispatch := AList.delete q (dispatch s), trace := trace s @ [EvDelete q True],
                  dispatchLock := False\<rparr>"
  have l: "\<not> dispatchLock s"
    using a by (auto simp add: deregisterHandler_def rbind_eq_Ok lock_dispatch_Ok)
  have b: "lstep s ?s3"
    using l by (auto simp add: lstep_def AList.delete_eq)
  show ?thesis
  proof (cases "map_of (dispatch s) q")
    case None
    with a l have "s' = ?s3"
      by (auto simp add: deregisterHandler_def rbind_eq_Ok lock_dispatch_Ok unlock_dispatch_def
            Let_def)
    with b show ?thesis by simp
  next
    case (Some p)
    with a l have "Cleanup p ?s3 = Ok s'"
      by (auto simp add: deregisterHandler_def rbind_eq_Ok lock_dispatch_Ok unlock_dispatch_def
            Let_def)
    then have "lstep ?s3 s'" by (rule lstep_Cleanup)
    with b show ?thesis by (rule lstep_trans)
  qed
qed

lemma lstep_cleanup_each: "cleanup_each ps s = Ok s' \<Longrightarrow> lstep s s'"
proof (induction ps arbitrary: s)
  case Nil
  then show ?case by (simp add: lstep_refl)
next
  case (Cons p ps)
  then obtain s1 where "Cleanup p s = Ok s1" "cleanup_each ps s1 = Ok s'"
    by (auto simp add: rbind_eq_Ok)
  with Cons.IH [of s1] show ?case
    by (blast intro: lstep_trans lstep_Cleanup)
qed

lemma lstep_deregisterAll: "deregisterAll s = Ok s' \<Longrightarrow> lstep s s'"
proof -
  assume a: "deregisterAll s = Ok s'"
  then have l: "\<not> dispatchLock s"
    by (auto simp add: deregisterAll_def rbind_eq_Ok lock_dispatch_Ok)
  from a l obtain s2 where
    c: "cleanup_each (map snd (dispatch s)) (s\<lparr>dispatchLock := True\<rparr>) = Ok s2"
    and e: "s' = unlock_dispatch (s2\<lparr>dispatch := [],
                                      trace := trace s2 @ [EvReset (dispatchLock s2)]\<rparr>)"
    by (auto simp add: deregisterAll_def rbind_eq_Ok lock_dispatch_Ok)
  from c have "lstep (s\<lparr>dispatchLock := True\<rparr>) s2" by (rule lstep_cleanup_each)
  with l e show ?thesis
    by (auto simp add: lstep_def unlock_dispatch_def)
qed

lemma lstep_Close: "Close s = Ok (e, s') \<Longrightarrow> lstep s s'"
proof (cases "shutdown s")
  case True
  assume "Close s = Ok (e, s')"
  with True show ?thesis by (simp add: Close_def lstep_refl)
next
  case False
  assume "Close s = Ok (e, s')"
  with False obtain s2 where
    n: "\<not> ch_closed (shutdownCh s)"
    and d: "deregisterAll (s\<lparr>shutdown := True, shutdownCh := (shutdownCh s)\<lparr>ch_closed := True\<rparr>\<rparr>) = Ok s2"
    and e: "s' = s2\<lparr>conn_open := False\<rparr>"
    by (auto simp add: Close_def rbind_eq_Ok close_shutdownCh_def split: if_splits)
  from d have "lstep (s\<lparr>shutdown := True, shutdownCh := (shutdownCh s)\<lparr>ch_closed := True\<rparr>\<rparr>) s2"
    by (rule lstep_deregisterAll)
  with False n e show ?thesis
    by (auto simp add: lstep_def)
qed


lemma lstep_incoming: "length rs \<le> length (incoming s) \<Longrightarrow> lstep s (s\<lparr>incoming := rs\<rparr>)"
  by (simp add: lstep_def)

lemma lstep_chan_send: "chan_send c v s = Ok s' \<Longrightarrow> lstep s s'"
  by (auto simp add: chan_send_def lstep_def Let_def split: if_splits)

lemma lstep_chan_try_send: "chan_try_send c v s = Ok (b, s') \<Longrightarrow> lstep s s'"
  by (auto simp add: chan_try_send_def lstep_def Let_def split: if_splits)

lemma lstep_log_Printf: "lstep s (log_Printf m s)"
  by (simp add: lstep_def log_Printf_def)

lemma lstep_decode_payload: "lstep s (snd (decode_payload d s))"
proof -
  have a: "snd (decode_payload d s)
          = s\<lparr>incoming := tl (incoming s), dests := dests (snd (decode_payload d s))\<rparr>"
    by (rule decode_payload_shape [THEN conjunct1])
  show ?thesis by (subst a) (simp add: lstep_def)
qed

lemma lstep_sc_handler: "sc_handler errCh resp h s = Ok s' \<Longrightarrow> lstep s s'"
proof (cases resp)
  case None
  assume "sc_handler errCh resp h s = Ok s'"
  with None show ?thesis by (simp add: sc_handler_def lstep_chan_send)
next
  case (Some d)
  assume a: "sc_handler errCh resp h s = Ok s'"
  obtain e s1 where d: "decode_payload d s = (e, s1)" by (cases "decode_payload d s")
  have "lstep s s1" using lstep_decode_payload [of s d] d by simp
  moreover have "\<exists>v. chan_send errCh v s1 = Ok s'"
    using a Some d by (cases e) (auto simp add: sc_handler_def)
  ultimately show ?thesis by (blast intro: lstep_trans lstep_chan_send)
qed

lemma incoming_Nil_upd: "incoming s = [] \<Longrightarrow> s\<lparr>incoming := []\<rparr> = s"
  by (cases s) simp

lemma decode_log_snd: "snd (decode_log s) = s\<lparr>incoming := tl (incoming s)\<rparr>"
proof (cases "incoming s")
  case Nil
  then show ?thesis by (simp add: decode_log_Cons incoming_Nil_upd)
next
  case (Cons r rs)
  then show ?thesis by (cases r) (simp_all add: decode_log_Cons)
qed

lemma decode_event_snd: "snd (decode_event s) = s\<lparr>incoming := tl (incoming s)\<rparr>"
proof (cases "incoming s")
  case Nil
  then show ?thesis by (simp add: decode_event_Cons incoming_Nil_upd)
next
  case (Cons r rs)
  then show ?thesis by (cases r) (simp_all add: decode_event_Cons)
qed

lemma decode_header_snd: "snd (decode_header s) = s\<lparr>incoming := tl (incoming s)\<rparr>"
proof (cases "incoming s")
  case Nil
  then show ?thesis by (simp add: decode_header_def incoming_Nil_upd)
next
  case (Cons r rs)
  then show ?thesis by (cases r) (simp_all add: decode_header_def)
qed

lemma decode_header_Inr:
  "fst (decode_header s) = Inr h \<longleftrightarrow> (\<exists>rs. incoming s = InHeader h # rs)"
proof (cases "incoming s")
  case Nil
  then show ?thesis by (simp add: decode_header_def)
next
  case (Cons r rs)
  then show ?thesis by (cases r) (simp_all add: decode_header_def)
qed

lemma decode_log_shape:
  "\<exists>x rs. decode_log s = (x, s\<lparr>incoming := rs\<rparr>) \<and> length rs \<le> length (incoming s)"
proof -
  have "decode_log s = (fst (decode_log s), s\<lparr>incoming := tl (incoming s)\<rparr>)"
    using decode_log_snd [of s] by (cases "decode_log s") simp
  moreover have "length (tl (incoming s)) \<le> length (incoming s)" by simp
  ultimately show ?thesis by blast
qed

lemma decode_event_shape:
  "\<exists>x rs. decode_event s = (x, s\<lparr>incoming := rs\<rparr>) \<and> length rs \<le> length (incoming s)"
proof -
  have "decode_event s = (fst (decode_event s), s\<lparr>incoming := tl (incoming s)\<rparr>)"
    using decode_event_snd [of s] by (cases "decode_event s") simp
  moreover have "length (tl (incoming s)) \<le> length (incoming s)" by simp
  ultimately show ?thesis by blast
qed

lemma decode_header_shape:
  "\<exists>x rs. decode_header s = (x, s\<lparr>incoming := rs\<rparr>) \<and> length rs \<le> length (incoming s)
          \<and> (\<forall>h. x = Inr h \<longrightarrow> length rs < length (incoming s))"
proof -
  have a: "decode_header s = (fst (decode_header s), s\<lparr>incoming := tl (incoming s)\<rparr>)"
    using decode_header_snd [of s] by (cases "decode_header s") simp
  have b: "length (tl (incoming s)) \<le> length (incoming s)" by simp
  have c: "\<forall>h. fst (decode_header s) = Inr h \<longrightarrow> length (tl (incoming s)) < length (incoming s)"
    by (auto simp add: decode_header_Inr)
  from a b c show ?thesis by blast
qed

lemma lstep_mh_Handle: "mh_Handle p resp s = Ok s' \<Longrightarrow> lstep s s'"
proof (cases "objs s p")
  case (MonitorH mh)
  assume a: "mh_Handle p resp s = Ok s'"
  show ?thesis
  proof (cases "mh_init mh")
    case False
    with a MonitorH have
      "chan_send (mh_initCh mh) (MErr (strToError (rError resp)))
         (s\<lparr>objs := (objs s)(p := MonitorH (mh\<lparr>mh_init := True\<rparr>))\<rparr>) = Ok s'"
      by (simp add: mh_Handle_def)
    then have "lstep (s\<lparr>objs := (objs s)(p := MonitorH (mh\<lparr>mh_init := True\<rparr>))\<rparr>) s'"
      by (rule lstep_chan_send)
    moreover have "lstep s (s\<lparr>objs := (objs s)(p := MonitorH (mh\<lparr>mh_init := True\<rparr>))\<rparr>)"
      using MonitorH by (simp add: lstep_def)
    ultimately show ?thesis by (blast intro: lstep_trans)
  next
    case True
    obtain x rs where d: "decode_log s = (x, s\<lparr>incoming := rs\<rparr>)"
      and len: "length rs \<le> length (incoming s)"
      using decode_log_shape [of s] by blast
    have b: "lstep s (s\<lparr>incoming := rs\<rparr>)" using len by (rule lstep_incoming)
    show ?thesis
    proof (cases x)
      case (Inl err)
      with a MonitorH True d have
        "deregisterHandler (mh_seq mh)
           (log_Printf (''[ERR] Failed to decode log: '' @ err) (s\<lparr>incoming := rs\<rparr>)) = Ok s'"
        by (simp add: mh_Handle_def)
      then have "lstep (log_Printf (''[ERR] Failed to decode log: '' @ err) (s\<lparr>incoming := rs\<rparr>)) s'"
        by (rule lstep_deregisterHandler)
      with b lstep_log_Printf show ?thesis by (blast intro: lstep_trans)
    next
      case (Inr l)
      with a MonitorH True d obtain sent s2 where
        t: "chan_try_send (mh_logCh mh) (MLog l) (s\<lparr>incoming := rs\<rparr>) = Ok (sent, s2)"
        and e: "s' = (if sent then s2
                      else log_Printf ''[ERR] Dropping log! Monitor channel full'' s2)"
        by (auto simp add: mh_Handle_def rbind_eq_Ok)
      from t have "lstep (s\<lparr>incoming := rs\<rparr>) s2" by (rule lstep_chan_try_send)
      with b have "lstep s s2" by (rule lstep_trans)
      with e lstep_log_Printf show ?thesis
        by (cases sent) (auto intro: lstep_trans)
    qed
  qed
qed (simp_all add: mh_Handle_def lstep_refl)

lemma lstep_sh_Handle: "sh_Handle p resp s = Ok s' \<Longrightarrow> lstep s s'"
proof (cases "objs s p")
  case (StreamH sh)
  assume a: "sh_Handle p resp s = Ok s'"
  show ?thesis
  proof (cases "sh_init sh")
    case False
    with a StreamH have
      "chan_send (sh_initCh sh) (MErr (strToError (rError resp)))
         (s\<lparr>objs := (objs s)(p := StreamH (sh\<lparr>sh_init := True\<rparr>))\<rparr>) = Ok s'"
      by (simp add: sh_Handle_def)
    then have "lstep (s\<lparr>objs := (objs s)(p := StreamH (sh\<lparr>sh_init := True\<rparr>))\<rparr>) s'"
      by (rule lstep_chan_send)
    moreover have "lstep s (s\<lparr>objs := (objs s)(p := StreamH (sh\<lparr>sh_init := True\<rparr>))\<rparr>)"
      using StreamH by (simp add: lstep_def)
    ultimately show ?thesis by (blast intro: lstep_trans)
  next
    case True
    obtain x rs where d: "decode_event s = (x, s\<lparr>incoming := rs\<rparr>)"
      and len: "length rs \<le> length (incoming s)"
      using decode_event_shape [of s] by blast
    have b: "lstep s (s\<lparr>incoming := rs\<rparr>)" using len by (rule lstep_incoming)
    show ?thesis
    proof (cases x)
      case (Inl err)
      with a StreamH True d have
        "deregisterHandler (sh_seq sh)
           (log_Printf (''[ERR] Failed to decode stream record: '' @ err) (s\<lparr>incoming := rs\<rparr>)) = Ok s'"
        by (simp add: sh_Handle_def)
      then have "lstep (log_Printf (''[ERR] Failed to decode stream record: '' @ err) (s\<lparr>incoming := rs\<rparr>)) s'"
        by (rule lstep_deregisterHandler)
      with b lstep_log_Printf show ?thesis by (blast intro: lstep_trans)
    next
      case (Inr ev)
      with a StreamH True d obtain sent s2 where
        t: "chan_try_send (sh_eventCh sh) (MEvent ev) (s\<lparr>incoming := rs\<rparr>) = Ok (sent, s2)"
        and e: "s' = (if sent then s2
                      else log_Printf ''[ERR] Dropping event! Stream channel full'' s2)"
        by (auto simp add: sh_Handle_def rbind_eq_Ok)
      from t have "lstep (s\<lparr>incoming := rs\<rparr>) s2" by (rule lstep_chan_try_send)
      with b have "lstep s s2" by (rule lstep_trans)
      with e lstep_log_Printf show ?thesis
        by (cases sent) (auto intro: lstep_trans)
    qed
  qed
qed (simp_all add: sh_Handle_def lstep_refl)

lemma lstep_Handle: "Handle p resp s = Ok s' \<Longrightarrow> lstep s s'"
proof -
  assume a: "Handle p resp s = Ok s'"
  let ?s1 = "s\<lparr>trace := trace s @ [EvHandle p (dispatchLock s)]\<rparr>"
  have b: "lstep s ?s1" by (rule lstep_trace)
  have "lstep ?s1 s'"
  proof (cases "objs s p")
    case (SeqCallback c d)
    with a have "sc_handler c d resp ?s1 = Ok s'" by (simp add: Handle_def)
    then show ?thesis by (rule lstep_sc_handler)
  next
    case (MonitorH mh)
    with a have "mh_Handle p resp ?s1 = Ok s'" by (simp add: Handle_def)
    then show ?thesis by (rule lstep_mh_Handle)
  next
    case (StreamH sh)
    with a have "sh_Handle p resp ?s1 = Ok s'" by (simp add: Handle_def)
    then show ?thesis by (rule lstep_sh_Handle)
  qed
  with b show ?thesis by (rule lstep_trans)
qed

lemma lstep_respondSeq: "respondSeq q h s = Ok s' \<Longrightarrow> lstep s s'"
proof -
  assume a: "respondSeq q h s = Ok s'"
  then have l: "\<not> dispatchLock s"
    by (auto simp add: respondSeq_def rbind_eq_Ok lock_dispatch_Ok)
  let ?s1 = "s\<lparr>trace := trace s @ [EvLookup q True]\<rparr>"
  have u: "unlock_dispatch (s\<lparr>dispatchLock := True, trace := trace s @ [EvLookup q True]\<rparr>)
             = ?s1"
    using l by (cases s) (simp add: unlock_dispatch_def)
  have b: "lstep s ?s1" by (rule lstep_trace)
  show ?thesis
  proof (cases "map_of (dispatch s) q")
    case None
    with a l u have "s' = ?s1"
      by (auto simp add: respondSeq_def rbind_eq_Ok lock_dispatch_Ok Let_def)
    with b show ?thesis by simp
  next
    case (Some p)
    with a l u have "Handle p h ?s1 = Ok s'"
      by (auto simp add: respondSeq_def rbind_eq_Ok lock_dispatch_Ok Let_def)
    then have "lstep ?s1 s'" by (rule lstep_Handle)
    with b show ?thesis by (rule lstep_trans)
  qed
qed

lemma lstep_listen_step: "listen_step s = Ok s' \<Longrightarrow> lstep s s'"
proof (cases "listening s")
  case False
  assume "listen_step s = Ok s'"
  with False show ?thesis by (simp add: listen_step_def lstep_refl)
next
  case True
  assume a: "listen_step s = Ok s'"
  obtain x rs where d: "decode_header s = (x, s\<lparr>incoming := rs\<rparr>)"
    and len: "length rs \<le> length (incoming s)"
    using decode_header_shape [of s] by blast
  have b: "lstep s (s\<lparr>incoming := rs\<rparr>)" using len by (rule lstep_incoming)
  show ?thesis
  proof (cases x)
    case (Inr h)
    with a True d have "respondSeq (rSeq h) h (s\<lparr>incoming := rs\<rparr>) = Ok s'"
      by (simp add: listen_step_def)
    then have "lstep (s\<lparr>incoming := rs\<rparr>) s'" by (rule lstep_respondSeq)
    with b show ?thesis by (rule lstep_trans)
  next
    case (Inl err)
    let ?s2 = "if \<not> shutdown s
               then log_Printf (''[ERR] agent.client: Failed to decode response header: '' @ err)
                      (s\<lparr>incoming := rs\<rparr>)
               else s\<lparr>incoming := rs\<rparr>"
    from a True d Inl obtain e s3 where
      c: "Close ?s2 = Ok (e, s3)" and f: "s' = s3\<lparr>listening := False\<rparr>"
      by (auto simp add: listen_step_def rbind_eq_Ok Let_def split: if_splits)
    have "lstep (s\<lparr>incoming := rs\<rparr>) ?s2" by (simp add: lstep_refl lstep_log_Printf)
    with b have "lstep s ?s2" by (rule lstep_trans)
    moreover from c have "lstep ?s2 s3" by (rule lstep_Close)
    moreover have "lstep s3 s'" using f by (simp add: lstep_def)
    ultimately show ?thesis by (blast intro: lstep_trans)
  qed
qed

lemma lstep_listen_n: "listen_n n s = Ok s' \<Longrightarrow> lstep s s'"
proof (induction n arbitrary: s)
  case 0
  then show ?case by (simp add: lstep_refl)
next
  case (Suc n)
  then obtain s1 where "listen_step s = Ok s1" "listen_n n s1 = Ok s'"
    by (auto simp add: rbind_eq_Ok)
  with Suc.IH [of s1] show ?case
    by (blast intro: lstep_trans lstep_listen_step)
qed

lemma lstep_await_n: "await_n c n s = Ok s' \<Longrightarrow> lstep s s'"
proof (induction n arbitrary: s)
  case 0
  then show ?case by (simp add: lstep_refl)
next
  case (Suc n)
  show ?case
  proof (cases "chan_can_recv c s \<or> ch_closed (shutdownCh s) \<or> \<not> listening s")
    case True
    with Suc.prems show ?thesis by (simp add: lstep_refl)
  next
    case False
    with Suc.prems obtain s1 where "listen_step s = Ok s1" "await_n c n s1 = Ok s'"
      by (auto simp add: rbind_eq_Ok)
    with Suc.IH [of s1] show ?thesis
      by (blast intro: lstep_trans lstep_listen_step)
  qed
qed

lemma lstep_await: "await c s = Ok s' \<Longrightarrow> lstep s s'"
  unfolding await_def by (rule lstep_await_n)

section \<open>The dispatch lock\<close>

lemma new_events_append: "trace s' = trace s @ tr \<Longrightarrow> new_events s s' = tr"
  by (simp add: new_events_def)

lemma Cleanup_trace:
  "Cleanup p s = Ok s' \<Longrightarrow> trace s' = trace s @ [EvCleanup p (dispatchLock s)]"
  by (cases "objs s p")
     (auto simp add: Cleanup_def mh_Cleanup_def sh_Cleanup_def chan_send_def chan_close_def
        rbind_eq_Ok Let_def split: if_splits)

lemma Cleanup_dispatch: "Cleanup p s = Ok s' \<Longrightarrow> dispatch s' = dispatch s"
  by (cases "objs s p")
     (auto simp add: Cleanup_def mh_Cleanup_def sh_Cleanup_def chan_send_def chan_close_def
        rbind_eq_Ok Let_def split: if_splits)

lemma handleSeq_Ok:
  "\<not> dispatchLock s \<Longrightarrow>
   handleSeq q p s = Ok (s\<lparr>dispatch := AList.update q p (dispatch s),
                           trace := trace s @ [EvRegister q p True]\<rparr>)"
  by (cases s) (simp add: handleSeq_def lock_dispatch_def unlock_dispatch_def)

lemma deregisterHandler_None:
  assumes "\<not> dispatchLock s" and "map_of (dispatch s) q = None"
  shows "deregisterHandler q s = Ok (s\<lparr>trace := trace s @ [EvDelete q True]\<rparr>)"
proof -
  have "q \<notin> fst ` set (dispatch s)"
    using assms(2) by (simp add: map_of_eq_None_iff)
  then have "AList.delete q (dispatch s) = dispatch s" by simp
  with assms show ?thesis
    by (cases s) (simp add: deregisterHandler_def lock_dispatch_def unlock_dispatch_def)
qed

lemma deregisterHandler_Some:
  assumes "\<not> dispatchLock s" and "map_of (dispatch s) q = Some p"
  shows "deregisterHandler q s =
           Cleanup p (s\<lparr>dispatch := AList.delete q (dispatch s),
                         trace := trace s @ [EvDelete q True]\<rparr>)"
  using assms
  by (cases s) (simp add: deregisterHandler_def lock_dispatch_def unlock_dispatch_def)

lemma deregisterHandler_unlocked: "deregisterHandler q s = Ok s' \<Longrightarrow> \<not> dispatchLock s"
  by (auto simp add: deregisterHandler_def rbind_eq_Ok lock_dispatch_Ok)

lemma deregisterHandler_trace:
  assumes "deregisterHandler q s = Ok s'"
  shows "trace s' = trace s @ EvDelete q True #
           (case map_of (dispatch s) q of Some p \<Rightarrow> [EvCleanup p False] | None \<Rightarrow> [])"
proof -
  have l: "\<not> dispatchLock s" using assms by (rule deregisterHandler_unlocked)
  show ?thesis
  proof (cases "map_of (dispatch s) q")
    case None
    with assms l show ?thesis by (auto simp add: deregisterHandler_None)
  next
    case (Some p)
    with assms l have
      "Cleanup p (s\<lparr>dispatch := AList.delete q (dispatch s),
                    trace := trace s @ [EvDelete q True]\<rparr>) = Ok s'"
      by (simp add: deregisterHandler_Some)
    from Cleanup_trace [OF this] l Some show ?thesis by simp
  qed
qed

lemma deregisterHandler_dispatch:
  assumes "deregisterHandler q s = Ok s'"
  shows "dispatch s' = AList.delete q (dispatch s)"
proof -
  have l: "\<not> dispatchLock s" using assms by (rule deregisterHandler_unlocked)
  show ?thesis
  proof (cases "map_of (dispatch s) q")
    case None
    with assms l have "s' = s\<lparr>trace := trace s @ [EvDelete q True]\<rparr>"
      by (auto simp add: deregisterHandler_None)
    moreover have "q \<notin> fst ` set (dispatch s)"
      using None by (simp add: map_of_eq_None_iff)
    ultimately show ?thesis by simp
  next
    case (Some p)
    with assms l have
      "Cleanup p (s\<lparr>dispatch := AList.delete q (dispatch s),
                    trace := trace s @ [EvDelete q True]\<rparr>) = Ok s'"
      by (simp add: deregisterHandler_Some)
    from Cleanup_dispatch [OF this] show ?thesis by simp
  qed
qed

lemma cleanup_each_trace:
  "cleanup_each ps s = Ok s' \<Longrightarrow>
     trace s' = trace s @ map (\<lambda>p. EvCleanup p (dispatchLock s)) ps"
proof (induction ps arbitrary: s)
  case Nil
  then show ?case by simp
next
  case (Cons p ps)
  then obtain s1 where c: "Cleanup p s = Ok s1" and r: "cleanup_each ps s1 = Ok s'"
    by (auto simp add: rbind_eq_Ok)
  have "dispatchLock s1 = dispatchLock s"
    using lstep_Cleanup [OF c] by (simp add: lstep_def)
  with Cons.IH [OF r] Cleanup_trace [OF c] show ?case by simp
qed

lemma deregisterAll_trace:
  assumes "deregisterAll s = Ok s'"
  shows "trace s' = trace s @ map (\<lambda>p. EvCleanup p True) (map snd (dispatch s)) @ [EvReset True]"
proof -
  from assms obtain s2 where
    c: "cleanup_each (map snd (dispatch s)) (s\<lparr>dispatchLock := True\<rparr>) = Ok s2"
    and e: "s' = unlock_dispatch (s2\<lparr>dispatch := [],
                                      trace := trace s2 @ [EvReset (dispatchLock s2)]\<rparr>)"
    by (auto simp add: deregisterAll_def rbind_eq_Ok lock_dispatch_Ok)
  have "dispatchLock s2" using lstep_cleanup_each [OF c] by (simp add: lstep_def)
  with cleanup_each_trace [OF c] e show ?thesis
    by (simp add: unlock_dispatch_def)
qed

lemma chan_send_trace: "chan_send c v s = Ok s' \<Longrightarrow> trace s' = trace s \<and> dispatch s' = dispatch s"
  by (auto simp add: chan_send_def Let_def split: if_splits)

lemma chan_try_send_trace:
  "chan_try_send c v s = Ok (b, s') \<Longrightarrow> trace s' = trace s \<and> dispatch s' = dispatch s"
  by (auto simp add: chan_try_send_def Let_def split: if_splits)

lemma sc_handler_trace: "sc_handler errCh resp h s = Ok s' \<Longrightarrow> trace s' = trace s"
proof (cases resp)
  case None
  assume "sc_handler errCh resp h s = Ok s'"
  with None show ?thesis by (simp add: sc_handler_def chan_send_trace)
next
  case (Some d)
  assume a: "sc_handler errCh resp h s = Ok s'"
  obtain e s1 where d: "decode_payload d s = (e, s1)" by (cases "decode_payload d s")
  have "trace (snd (decode_payload d s)) = trace s"
    by (subst decode_payload_shape [THEN conjunct1]) simp
  with d have t: "trace s1 = trace s" by simp
  have "\<exists>v. chan_send errCh v s1 = Ok s'"
    using a Some d by (cases e) (auto simp add: sc_handler_def)
  with t show ?thesis by (auto dest: chan_send_trace)
qed


lemma mh_Handle_trace:
  assumes "mh_Handle p resp s = Ok s'"
  shows "\<exists>tr. trace s' = trace s @ tr \<and> (\<forall>e\<in>set tr. lock_ok e)"
proof (cases "objs s p")
  case (MonitorH mh)
  show ?thesis
  proof (cases "mh_init mh")
    case False
    with assms MonitorH have
      "chan_send (mh_initCh mh) (MErr (strToError (rError resp)))
         (s\<lparr>objs := (objs s)(p := MonitorH (mh\<lparr>mh_init := True\<rparr>))\<rparr>) = Ok s'"
      by (simp add: mh_Handle_def)
    from chan_send_trace [OF this] show ?thesis by simp
  next
    case True
    obtain x rs where d: "decode_log s = (x, s\<lparr>incoming := rs\<rparr>)"
      using decode_log_shape [of s] by blast
    show ?thesis
    proof (cases x)
      case (Inl err)
      with assms MonitorH True d have
        "deregisterHandler (mh_seq mh)
           (log_Printf (''[ERR] Failed to decode log: '' @ err) (s\<lparr>incoming := rs\<rparr>)) = Ok s'"
        by (simp add: mh_Handle_def)
      from deregisterHandler_trace [OF this] show ?thesis
        by (auto simp add: log_Printf_def split: option.splits)
    next
      case (Inr l)
      with assms MonitorH True d obtain sent s2 where
        t: "chan_try_send (mh_logCh mh) (MLog l) (s\<lparr>incoming := rs\<rparr>) = Ok (sent, s2)"
        and e: "s' = (if sent then s2
                      else log_Printf ''[ERR] Dropping log! Monitor channel full'' s2)"
        by (auto simp add: mh_Handle_def rbind_eq_Ok)
      from chan_try_send_trace [OF t] e show ?thesis
        by (simp add: log_Printf_def)
    qed
  qed
qed (use assms in \<open>simp_all add: mh_Handle_def\<close>)

lemma sh_Handle_trace:
  assumes "sh_Handle p resp s = Ok s'"
  shows "\<exists>tr. trace s' = trace s @ tr \<and> (\<forall>e\<in>set tr. lock_ok e)"
proof (cases "objs s p")
  case (StreamH sh)
  show ?thesis
  proof (cases "sh_init sh")
    case False
    with assms StreamH have
      "chan_send (sh_initCh sh) (MErr (strToError (rError resp)))
         (s\<lparr>objs := (objs s)(p := StreamH (sh\<lparr>sh_init := True\<rparr>))\<rparr>) = Ok s'"
      by (simp add: sh_Handle_def)
    from chan_send_trace [OF this] show ?thesis by simp
  next
    case True
    obtain x rs where d: "decode_event s = (x, s\<lparr>incoming := rs\<rparr>)"
      using decode_event_shape [of s] by blast
    show ?thesis
    proof (cases x)
      case (Inl err)
      with assms StreamH True d have
        "deregisterHandler (sh_seq sh)
           (log_Printf (''[ERR] Failed to decode stream record: '' @ err) (s\<lparr>incoming := rs\<rparr>)) = Ok s'"
        by (simp add: sh_Handle_def)
      from deregisterHandler_trace [OF this] show ?thesis
        by (auto simp add: log_Printf_def split: option.splits)
    next
      case (Inr ev)
      with assms StreamH True d obtain sent s2 where
        t: "chan_try_send (sh_eventCh sh) (MEvent ev) (s\<lparr>incoming := rs\<rparr>) = Ok (sent, s2)"
        and e: "s' = (if sent then s2
                      else log_Printf ''[ERR] Dropping event! Stream channel full'' s2)"
        by (auto simp add: sh_Handle_def rbind_eq_Ok)
      from chan_try_send_trace [OF t] e show ?thesis
        by (simp add: log_Printf_def)
    qed
  qed
qed (use assms in \<open>simp_all add: sh_Handle_def\<close>)

lemma Handle_trace:
  assumes "Handle p resp s = Ok s'" and "\<not> dispatchLock s"
  shows "\<exists>tr. trace s' = trace s @ EvHandle p False # tr \<and> (\<forall>e\<in>set tr. lock_ok e)"
proof -
  let ?s1 = "s\<lparr>trace := trace s @ [EvHandle p (dispatchLock s)]\<rparr>"
  have "\<exists>tr. trace s' = trace ?s1 @ tr \<and> (\<forall>e\<in>set tr. lock_ok e)"
  proof (cases "objs s p")
    case (SeqCallback c d)
    with assms have "sc_handler c d resp ?s1 = Ok s'" by (simp add: Handle_def)
    from sc_handler_trace [OF this] show ?thesis by simp
  next
    case (MonitorH mh)
    with assms have "mh_Handle p resp ?s1 = Ok s'" by (simp add: Handle_def)
    then show ?thesis by (rule mh_Handle_trace)
  next
    case (StreamH sh)
    with assms have "sh_Handle p resp ?s1 = Ok s'" by (simp add: Handle_def)
    then show ?thesis by (rule sh_Handle_trace)
  qed
  with assms(2) show ?thesis by simp
qed

lemma respondSeq_None:
  assumes "\<not> dispatchLock s" and "map_of (dispatch s) q = None"
  shows "respondSeq q h s = Ok (s\<lparr>trace := trace s @ [EvLookup q True]\<rparr>)"
  using assms
  by (cases s) (simp add: respondSeq_def lock_dispatch_def unlock_dispatch_def)

lemma respondSeq_Some:
  assumes "\<not> dispatchLock s" and "map_of (dispatch s) q = Some p"
  shows "respondSeq q h s = Handle p h (s\<lparr>trace := trace s @ [EvLookup q True]\<rparr>)"
  using assms
  by (cases s) (simp add: respondSeq_def lock_dispatch_def unlock_dispatch_def)

lemma respondSeq_unlocked: "respondSeq q h s = Ok s' \<Longrightarrow> \<not> dispatchLock s"
  by (auto simp add: respondSeq_def rbind_eq_Ok lock_dispatch_Ok)

lemma respondSeq_trace:
  assumes "respondSeq q h s = Ok s'"
  shows "\<exists>tr. trace s' = trace s @ EvLookup q True #
                 (case map_of (dispatch s) q of Some p' \<Rightarrow> EvHandle p' False # tr | None \<Rightarrow> [])
              \<and> (\<forall>e\<in>set tr. lock_ok e)"
proof -
  have l: "\<not> dispatchLock s" using assms by (rule respondSeq_unlocked)
  show ?thesis
  proof (cases "map_of (dispatch s) q")
    case None
    with assms l have "trace s' = trace s @ [EvLookup q True]"
      by (auto simp add: respondSeq_None)
    with None show ?thesis by (intro exI [of _ "[]"]) simp
  next
    case (Some p)
    let ?s1 = "s\<lparr>trace := trace s @ [EvLookup q True]\<rparr>"
    from Some assms l have "Handle p h ?s1 = Ok s'" by (simp add: respondSeq_Some)
    moreover have "\<not> dispatchLock ?s1" using l by simp
    ultimately obtain tr where
      "trace s' = trace ?s1 @ EvHandle p False # tr" "\<forall>e\<in>set tr. lock_ok e"
      using Handle_trace by blast
    with Some show ?thesis by simp
  qed
qed

lemma dispatch_Blocked:
  assumes "dispatchLock s"
  shows "handleSeq q p s = Blocked" and "respondSeq q h s = Blocked"
    and "deregisterHandler q s = Blocked" and "deregisterAll s = Blocked"
  using assms
  by (simp_all add: handleSeq_def respondSeq_def deregisterHandler_def deregisterAll_def
        lock_dispatch_def)

text \<open>
  C2, as the code has it. While the dispatch lock is held by another
  goroutine none of the four operations goes on. With the lock free:
  \<open>handleSeq\<close> stores into the map with the lock held, calls no handler and
  returns with the lock free; \<open>respondSeq\<close> reads the map with the lock held
  and calls the \<open>Handle\<close> of the handler it found with the lock free, and
  \<open>deregisterHandler\<close> deletes with the lock held and calls the \<open>Cleanup\<close>
  of the handler it found with the lock free; whatever these calls do in turn
  accesses the map with the lock held and calls handlers with the lock free,
  and both return with the lock free. \<open>deregisterAll\<close> is different: it calls
  the \<open>Cleanup\<close> of every remaining handler, once each and in no stated
  order, while it holds the lock, replaces the map after the calls, still with
  the lock held, and returns with the lock free.
\<close>

theorem dispatch_lock_discipline:
  "(dispatchLock s \<longrightarrow>
      handleSeq q p s = Blocked \<and> respondSeq q h s = Blocked
      \<and> deregisterHandler q s = Blocked \<and> deregisterAll s = Blocked)
   \<and> (\<not> dispatchLock s \<longrightarrow>
        (\<exists>s'. handleSeq q p s = Ok s' \<and> new_events s s' = [EvRegister q p True]
            \<and> map_of (dispatch s') q = Some p \<and> \<not> dispatchLock s'))
   \<and> (\<forall>s'. respondSeq q h s = Ok s' \<longrightarrow>
         \<not> dispatchLock s'
         \<and> (\<exists>tr. new_events s s' = EvLookup q True #
                    (case map_of (dispatch s) q of
                       Some p' \<Rightarrow> EvHandle p' False # tr
                     | None \<Rightarrow> [])
                \<and> (\<forall>e\<in>set tr. lock_ok e)))
   \<and> (\<forall>s'. deregisterHandler q s = Ok s' \<longrightarrow>
         \<not> dispatchLock s' \<and> map_of (dispatch s') q = None
         \<and> new_events s s' = EvDelete q True #
             (case map_of (dispatch s) q of Some p' \<Rightarrow> [EvCleanup p' False] | None \<Rightarrow> []))
   \<and> (\<forall>s'. deregisterAll s = Ok s' \<longrightarrow>
         \<not> dispatchLock s' \<and> dispatch s' = []
         \<and> (\<exists>cl. new_events s s' = cl @ [EvReset True]
                \<and> set cl = (\<lambda>p'. EvCleanup p' True) ` snd ` set (dispatch s)
                \<and> length cl = length (dispatch s)))"
proof (intro conjI impI allI)
  assume l: "dispatchLock s"
  from l show "handleSeq q p s = Blocked" by (rule dispatch_Blocked)
  from l show "respondSeq q h s = Blocked" by (rule dispatch_Blocked)
  from l show "deregisterHandler q s = Blocked" by (rule dispatch_Blocked)
  from l show "deregisterAll s = Blocked" by (rule dispatch_Blocked)
next
  assume "\<not> dispatchLock s"
  then show "\<exists>s'. handleSeq q p s = Ok s' \<and> new_events s s' = [EvRegister q p True]
            \<and> map_of (dispatch s') q = Some p \<and> \<not> dispatchLock s'"
    by (simp add: handleSeq_Ok new_events_def update_conv')
next
  fix s'
  assume a: "respondSeq q h s = Ok s'"
  from respondSeq_unlocked [OF a] lstep_respondSeq [OF a]
  show "\<not> dispatchLock s'" by (simp add: lstep_def)
  from respondSeq_trace [OF a]
  show "\<exists>tr. new_events s s' = EvLookup q True #
                    (case map_of (dispatch s) q of
                       Some p' \<Rightarrow> EvHandle p' False # tr
                     | None \<Rightarrow> [])
                \<and> (\<forall>e\<in>set tr. lock_ok e)"
    by (auto simp add: new_events_def)
next
  fix s'
  assume a: "deregisterHandler q s = Ok s'"
  from deregisterHandler_unlocked [OF a] lstep_deregisterHandler [OF a]
  show "\<not> dispatchLock s'" by (simp add: lstep_def)
  from a show "map_of (dispatch s') q = None"
    by (simp add: deregisterHandler_dispatch delete_conv')
  from deregisterHandler_trace [OF a]
  show "new_events s s' = EvDelete q True #
             (case map_of (dispatch s) q of Some p' \<Rightarrow> [EvCleanup p' False] | None \<Rightarrow> [])"
    by (rule new_events_append)
next
  fix s'
  assume a: "deregisterAll s = Ok s'"
  then have l: "\<not> dispatchLock s"
    by (auto simp add: deregisterAll_def rbind_eq_Ok lock_dispatch_Ok)
  with lstep_deregisterAll [OF a] show "\<not> dispatchLock s'" by (simp add: lstep_def)
  from a show "dispatch s' = []"
    by (auto simp add: deregisterAll_def rbind_eq_Ok unlock_dispatch_def)
  let ?cl = "map (\<lambda>p'. EvCleanup p' True) (map snd (dispatch s))"
  from deregisterAll_trace [OF a] have "new_events s s' = ?cl @ [EvReset True]"
    by (rule new_events_append)
  moreover have "set ?cl = (\<lambda>p'. EvCleanup p' True) ` snd ` set (dispatch s)"
    by (simp only: set_map)
  moreover have "length ?cl = length (dispatch s)" by simp
  ultimately show "\<exists>cl. new_events s s' = cl @ [EvReset True]
                \<and> set cl = (\<lambda>p'. EvCleanup p' True) ` snd ` set (dispatch s)
                \<and> length cl = length (dispatch s)"
    by blast
qed

theorem dispatch_lock_discipline_witness:
  "\<not> dispatchLock (ex_streaming [InLog ''a''])
   \<and> handleSeq 7 3 ((ex_streaming [InLog ''a''])\<lparr>dispatchLock := True\<rparr>) = Blocked
   \<and> deregisterAll ((ex_streaming [InLog ''a''])\<lparr>dispatchLock := True\<rparr>) = Blocked
   \<and> (\<exists>s'. handleSeq 7 3 (ex_streaming [InLog ''a'']) = Ok s'
          \<and> new_events (ex_streaming [InLog ''a'']) s' = [EvRegister 7 3 True]
          \<and> \<not> dispatchLock s')
   \<and> (\<exists>s'. respondSeq 1 \<lparr>rSeq = 1, rError = []\<rparr> (ex_streaming [InLog ''a'']) = Ok s'
          \<and> new_events (ex_streaming [InLog ''a'']) s' = [EvLookup 1 True, EvHandle 0 False]
          \<and> \<not> dispatchLock s')
   \<and> (\<exists>s'. deregisterHandler 1 (ex_streaming [InLog ''a'']) = Ok s'
          \<and> new_events (ex_streaming [InLog ''a'']) s' = [EvDelete 1 True, EvCleanup 0 False]
          \<and> \<not> dispatchLock s')
   \<and> (\<exists>s'. deregisterAll (ex_streaming [InLog ''a'']) = Ok s'
          \<and> new_events (ex_streaming [InLog ''a'']) s' = [EvCleanup 0 True, EvReset True]
          \<and> \<not> dispatchLock s')"
proof -
  let ?s = "ex_streaming [InLog ''a'']"
  let ?h = "\<lparr>rSeq = 1, rError = []\<rparr>"
  note d = dispatch_lock_discipline [where s = ?s and q = 1 and p = 3 and h = ?h]
  note d' = dispatch_lock_discipline [where s = ?s and q = 7 and p = 3 and h = ?h]
  note dl = dispatch_lock_discipline
              [where s = "?s\<lparr>dispatchLock := True\<rparr>" and q = 7 and p = 3 and h = ?h,
               THEN conjunct1]
  have a: "\<not> dispatchLock ?s" by code_simp
  have m: "map_of (dispatch ?s) 1 = Some 0" by code_simp
  have ds: "dispatch ?s = [(1, 0)]" by code_simp
  from dl have b1: "handleSeq 7 3 (?s\<lparr>dispatchLock := True\<rparr>) = Blocked"
    and b2: "deregisterAll (?s\<lparr>dispatchLock := True\<rparr>) = Blocked"
    by simp_all
  have "rbind (respondSeq 1 ?h ?s) (\<lambda>s'. Ok (new_events ?s s'))
          = Ok [EvLookup 1 True, EvHandle 0 False]"
    by code_simp
  then obtain s1 where r: "respondSeq 1 ?h ?s = Ok s1"
    and r': "new_events ?s s1 = [EvLookup 1 True, EvHandle 0 False]"
    by (auto simp add: rbind_eq_Ok)
  have "rbind (deregisterHandler 1 ?s) (\<lambda>s'. Ok (seq s')) = Ok 1"
    by code_simp
  then obtain s2 where g: "deregisterHandler 1 ?s = Ok s2"
    by (auto simp add: rbind_eq_Ok)
  have "rbind (deregisterAll ?s) (\<lambda>s'. Ok (new_events ?s s')) = Ok [EvCleanup 0 True, EvReset True]"
    by code_simp
  then obtain s3 where f: "deregisterAll ?s = Ok s3"
    and f': "new_events ?s s3 = [EvCleanup 0 True, EvReset True]"
    by (auto simp add: rbind_eq_Ok)
  from d' [THEN conjunct2, THEN conjunct1] a
  have c1: "\<exists>s'. handleSeq 7 3 ?s = Ok s' \<and> new_events ?s s' = [EvRegister 7 3 True]
              \<and> \<not> dispatchLock s'"
    by blast
  from d [THEN conjunct2, THEN conjunct2, THEN conjunct1] r
  have c2: "\<not> dispatchLock s1" by blast
  from d [THEN conjunct2, THEN conjunct2, THEN conjunct2, THEN conjunct1] g
  have "\<not> dispatchLock s2 \<and> map_of (dispatch s2) 1 = None
         \<and> new_events ?s s2 = EvDelete 1 True #
             (case map_of (dispatch ?s) 1 of Some p' \<Rightarrow> [EvCleanup p' False] | None \<Rightarrow> [])"
    by blast
  with m have c3: "\<not> dispatchLock s2" "new_events ?s s2 = [EvDelete 1 True, EvCleanup 0 False]"
    by simp_all
  from d [THEN conjunct2, THEN conjunct2, THEN conjunct2, THEN conjunct2] f
  have c4: "\<not> dispatchLock s3" by blast
  from a b1 b2 c1 r r' c2 g c3 f f' c4 show ?thesis by blast
qed

text \<open>
  C2 as stated fails: the remove-all of the shutdown calls \<open>Cleanup\<close> with the
  dispatch lock held. On the client with one subscription, \<open>Close\<close> notes the
  call of the handler's \<open>Cleanup\<close> with the lock held.
\<close>

theorem Close_cleans_up_under_lock:
  "rbind (Close (ex_streaming [])) (\<lambda>(e, s'). Ok (new_events (ex_streaming []) s'))
     = Ok [EvCleanup 0 True, EvReset True]
   \<and> under_lock (EvCleanup 0 True)"
  by code_simp

section \<open>\<open>genericRPC\<close>\<close>

lemma send_frame:
  assumes "send h r s = (e, s')"
  shows "dispatch s' = dispatch s \<and> dispatchLock s' = dispatchLock s \<and> objs s' = objs s
         \<and> chans s' = chans s \<and> next_chan s' = next_chan s \<and> next_obj s' = next_obj s
         \<and> seq s' = seq s \<and> shutdown s' = shutdown s \<and> shutdownCh s' = shutdownCh s
         \<and> conn_open s' = conn_open s \<and> incoming s' = incoming s
         \<and> listening s' = listening s
         \<and> trace s' = trace s @ (if e = None then [EvSend h] else [])"
proof (cases "shutdown s")
  case True
  with assms show ?thesis by (auto simp add: send_def clientClosed_def)
next
  case False
  show ?thesis
  proof (cases "write_err s")
    case (Some x)
    with False have "send h r s = (Some x, s)"
      by (simp add: send_def enc_Encode_def)
    with assms show ?thesis by auto
  next
    case None
    with False have "send h r s =
        (None, s\<lparr>wbuf := [],
                  wire_out := wire_out s @ wbuf s @ OutHeader h #
                     (case r of Some b \<Rightarrow> [OutBody b] | None \<Rightarrow> []),
                  trace := trace s @ [EvSend h]\<rparr>)"
      by (cases r) (simp_all add: send_def enc_Encode_def writer_Flush_def)
    with assms show ?thesis by auto
  qed
qed

lemma send_shutdown: "shutdown s \<Longrightarrow> send h r s = (clientClosed, s)"
  by (simp add: send_def)

lemma send_wire:
  assumes "send h r s = (e, s')"
  shows "(e = None \<longleftrightarrow> \<not> shutdown s \<and> write_err s = None)
         \<and> (e = None \<longrightarrow>
               wire_out s' = wire_out s @ wbuf s @ OutHeader h #
                               (case r of Some b \<Rightarrow> [OutBody b] | None \<Rightarrow> [])
               \<and> wbuf s' = [])
         \<and> (e \<noteq> None \<longrightarrow>
               wire_out s' = wire_out s \<and> wbuf s' = wbuf s
               \<and> e = (if shutdown s then clientClosed else write_err s))
         \<and> write_err s' = write_err s"
proof (cases "shutdown s")
  case True
  with assms show ?thesis by (auto simp add: send_def clientClosed_def)
next
  case False
  show ?thesis
  proof (cases "write_err s")
    case (Some x)
    with False have "send h r s = (Some x, s)"
      by (simp add: send_def enc_Encode_def)
    with assms have "e = Some x" "s' = s" by simp_all
    with False Some show ?thesis by simp
  next
    case None
    with False have "send h r s =
        (None, s\<lparr>wbuf := [],
                  wire_out := wire_out s @ wbuf s @ OutHeader h #
                     (case r of Some b \<Rightarrow> [OutBody b] | None \<Rightarrow> []),
                  trace := trace s @ [EvSend h]\<rparr>)"
      by (cases r) (simp_all add: send_def enc_Encode_def writer_Flush_def)
    with assms have "e = None"
      "s' = s\<lparr>wbuf := [],
               wire_out := wire_out s @ wbuf s @ OutHeader h #
                  (case r of Some b \<Rightarrow> [OutBody b] | None \<Rightarrow> []),
               trace := trace s @ [EvSend h]\<rparr>"
      by simp_all
    with False None show ?thesis by simp
  qed
qed

lemma Cleanup_callback:
  "\<not> streaming (objs s p) \<Longrightarrow>
     Cleanup p s = Ok (s\<lparr>trace := trace s @ [EvCleanup p (dispatchLock s)]\<rparr>)"
  by (cases "objs s p") (simp_all add: Cleanup_def)



lemma select_recv_first:
  "chan_can_recv c s \<Longrightarrow> \<not> ch_closed (shutdownCh s) \<or> pick = FirstCase \<Longrightarrow>
     select_recv c pick s = Ok (Some (fst (chan_recv c s)), snd (chan_recv c s))"
  by (auto simp add: select_recv_def split: prod.splits)

lemma select_recv_second:
  "ch_closed (shutdownCh s) \<Longrightarrow> \<not> chan_can_recv c s \<or> pick = SecondCase \<Longrightarrow>
     select_recv c pick s = Ok (None, s)"
  by (auto simp add: select_recv_def)

lemma chan_recv_frame:
  "dispatch (snd (chan_recv c s)) = dispatch s
   \<and> dispatchLock (snd (chan_recv c s)) = dispatchLock s
   \<and> objs (snd (chan_recv c s)) = objs s
   \<and> trace (snd (chan_recv c s)) = trace s
   \<and> next_chan (snd (chan_recv c s)) = next_chan s
   \<and> seq (snd (chan_recv c s)) = seq s
   \<and> shutdown (snd (chan_recv c s)) = shutdown s
   \<and> shutdownCh (snd (chan_recv c s)) = shutdownCh s
   \<and> conn_open (snd (chan_recv c s)) = conn_open s
   \<and> wire_out (snd (chan_recv c s)) = wire_out s
   \<and> (\<forall>c'. c' \<noteq> c \<longrightarrow> chans (snd (chan_recv c s)) c' = chans s c')"
  by (cases "ch_buf (chans s c)") (simp_all add: chan_recv_def)

lemma select_recv_frame:
  assumes "select_recv c pick s = Ok (v, s1)"
  shows "dispatch s1 = dispatch s \<and> dispatchLock s1 = dispatchLock s \<and> objs s1 = objs s
         \<and> trace s1 = trace s \<and> next_chan s1 = next_chan s \<and> seq s1 = seq s
         \<and> shutdown s1 = shutdown s \<and> shutdownCh s1 = shutdownCh s
         \<and> conn_open s1 = conn_open s \<and> wire_out s1 = wire_out s
         \<and> (\<forall>c'. c' \<noteq> c \<longrightarrow> chans s1 c' = chans s c')"
proof (cases "chan_can_recv c s \<and> (\<not> ch_closed (shutdownCh s) \<or> pick = FirstCase)")
  case True
  with assms have "s1 = snd (chan_recv c s)"
    by (auto simp add: select_recv_def split: prod.splits)
  with chan_recv_frame [of c s] show ?thesis by simp
next
  case False
  with assms have "s1 = s"
    by (auto simp add: select_recv_def split: if_splits)
  then show ?thesis by simp
qed










section \<open>Decode failures\<close>

lemma Cleanup_fields:
  "Cleanup p s = Ok s' \<Longrightarrow>
     shutdown s' = shutdown s \<and> conn_open s' = conn_open s \<and> listening s' = listening s
     \<and> shutdownCh s' = shutdownCh s \<and> incoming s' = incoming s \<and> logs s' = logs s
     \<and> wire_out s' = wire_out s"
  by (cases "objs s p")
     (auto simp add: Cleanup_def mh_Cleanup_def sh_Cleanup_def chan_send_def chan_close_def
        rbind_eq_Ok Let_def split: if_splits)

lemma deregisterAll_dispatch: "deregisterAll s = Ok s' \<Longrightarrow> dispatch s' = []"
  by (auto simp add: deregisterAll_def rbind_eq_Ok unlock_dispatch_def)

lemma Close_effect:
  assumes "Close s = Ok (e, s')"
  shows "shutdown s'
         \<and> (\<not> shutdown s \<longrightarrow> \<not> conn_open s' \<and> dispatch s' = [] \<and> ch_closed (shutdownCh s'))"
proof (cases "shutdown s")
  case True
  with assms show ?thesis by (simp add: Close_def)
next
  case False
  let ?s1 = "s\<lparr>shutdown := True, shutdownCh := (shutdownCh s)\<lparr>ch_closed := True\<rparr>\<rparr>"
  from assms False obtain s2 where
    d: "deregisterAll ?s1 = Ok s2" and e: "s' = s2\<lparr>conn_open := False\<rparr>"
    by (auto simp add: Close_def rbind_eq_Ok close_shutdownCh_def split: if_splits)
  from lstep_deregisterAll [OF d] have "shutdown s2" "ch_closed (shutdownCh s2)"
    by (auto simp add: lstep_def)
  with deregisterAll_dispatch [OF d] e show ?thesis by simp
qed

lemma listen_step_header_fail:
  assumes "listening s" and "fst (decode_header s) = Inl err" and "listen_step s = Ok s'"
  shows "\<not> listening s' \<and> shutdown s'
         \<and> (\<forall>h r. send h r s' = (clientClosed, s'))
         \<and> (\<not> shutdown s \<longrightarrow> \<not> conn_open s' \<and> dispatch s' = [] \<and> ch_closed (shutdownCh s'))"
proof -
  obtain s1 where d: "decode_header s = (Inl err, s1)"
    using assms(2) by (cases "decode_header s") simp
  have s1: "s1 = s\<lparr>incoming := tl (incoming s)\<rparr>"
    using decode_header_snd [of s] d by simp
  let ?s2 = "if \<not> shutdown s1
             then log_Printf (''[ERR] agent.client: Failed to decode response header: '' @ err) s1
             else s1"
  from assms(1,3) d obtain e s3 where
    c: "Close ?s2 = Ok (e, s3)" and f: "s' = s3\<lparr>listening := False\<rparr>"
    by (auto simp add: listen_step_def rbind_eq_Ok Let_def split: if_splits)
  have "shutdown ?s2 = shutdown s" using s1 by (simp add: log_Printf_def)
  with Close_effect [OF c] f have
    a: "\<not> listening s'" "shutdown s'"
       "\<not> shutdown s \<longrightarrow> \<not> conn_open s' \<and> dispatch s' = [] \<and> ch_closed (shutdownCh s')"
    by simp_all
  from a(2) have "\<forall>h r. send h r s' = (clientClosed, s')" by (simp add: send_shutdown)
  with a show ?thesis by blast
qed

lemma listen_step_header:
  assumes "listening s" and "\<not> dispatchLock s" and "incoming s = InHeader h # rest"
      and "map_of (dispatch s) (rSeq h) = Some p"
  shows "listen_step s =
           Handle p h (s\<lparr>incoming := rest, trace := trace s @ [EvLookup (rSeq h) True]\<rparr>)"
proof -
  have "decode_header s = (Inr h, s\<lparr>incoming := rest\<rparr>)"
    using assms(3) by (simp add: decode_header_def)
  moreover have "respondSeq (rSeq h) h (s\<lparr>incoming := rest\<rparr>)
                   = Handle p h (s\<lparr>incoming := rest, trace := trace s @ [EvLookup (rSeq h) True]\<rparr>)"
    using assms(2,4) respondSeq_Some [of "s\<lparr>incoming := rest\<rparr>" "rSeq h" p h] by simp
  ultimately show ?thesis using assms(1) by (simp add: listen_step_def)
qed

lemma listen_step_callback_decode_fail:
  assumes "listening s" and "\<not> dispatchLock s" and "incoming s = InHeader h # rest"
      and "map_of (dispatch s) (rSeq h) = Some p"
      and "objs s p = SeqCallback errCh (Some d)"
      and "fst (decode_payload d (s\<lparr>incoming := rest\<rparr>)) = Some err"
      and "has_room errCh s"
  shows "\<exists>s'. listen_step s = Ok s' \<and> listening s' \<and> shutdown s' = shutdown s
           \<and> conn_open s' = conn_open s \<and> dispatch s' = dispatch s
           \<and> incoming s' = tl rest
           \<and> ch_buf (chans s' errCh) = ch_buf (chans s errCh) @ [MErr (Some err)]"
proof -
  let ?s1 = "s\<lparr>incoming := rest, trace := trace s @ [EvLookup (rSeq h) True]\<rparr>"
  have a: "objs ?s1 p = SeqCallback errCh (Some d)" using assms(5) by simp
  have b: "has_room errCh ?s1" using assms(7) by (simp add: has_room_def)
  have c: "fst (decode_payload d ?s1) = Some err"
    using assms(6) decode_payload_trace [where d = d and s = "s\<lparr>incoming := rest\<rparr>"] by simp
  have "listen_step s = Handle p h ?s1"
    using assms(1-4) by (rule listen_step_header)
  with sc_Handle_decode_fail [OF a c b, of h] assms(1) show ?thesis by simp
qed

lemma h_msg_None_decode_log:
  assumes "case incoming s of [] \<Rightarrow> True | r # rs \<Rightarrow> h_msg (MonitorH mh) r = None"
  shows "\<exists>err. decode_log s = (Inl err, s\<lparr>incoming := tl (incoming s)\<rparr>)"
proof -
  have "\<exists>err. fst (decode_log s) = Inl err"
  proof (cases "incoming s")
    case Nil
    then show ?thesis by (simp add: decode_log_Cons)
  next
    case (Cons r rs)
    with assms show ?thesis by (cases r) (simp_all add: decode_log_Cons)
  qed
  then obtain err where "fst (decode_log s) = Inl err" by blast
  with decode_log_snd [of s]
  have x: "decode_log s = (Inl err, s\<lparr>incoming := tl (incoming s)\<rparr>)"
    by (cases "decode_log s") simp
  show ?thesis by (rule exI [where x = err], rule x)
qed

lemma h_msg_None_decode_event:
  assumes "case incoming s of [] \<Rightarrow> True | r # rs \<Rightarrow> h_msg (StreamH sh) r = None"
  shows "\<exists>err. decode_event s = (Inl err, s\<lparr>incoming := tl (incoming s)\<rparr>)"
proof -
  have "\<exists>err. fst (decode_event s) = Inl err"
  proof (cases "incoming s")
    case Nil
    then show ?thesis by (simp add: decode_event_Cons)
  next
    case (Cons r rs)
    with assms show ?thesis by (cases r) (simp_all add: decode_event_Cons)
  qed
  then obtain err where "fst (decode_event s) = Inl err" by blast
  with decode_event_snd [of s]
  have x: "decode_event s = (Inl err, s\<lparr>incoming := tl (incoming s)\<rparr>)"
    by (cases "decode_event s") simp
  show ?thesis by (rule exI [where x = err], rule x)
qed

lemma Handle_streaming_decode_fail:
  assumes "objs s p = hdl" and "streaming hdl" and "h_init hdl"
      and "case incoming s of [] \<Rightarrow> True | r # rs \<Rightarrow> h_msg hdl r = None"
  shows "\<exists>m. Handle p h s =
           deregisterHandler (h_seq hdl)
             (s\<lparr>trace := trace s @ [EvHandle p (dispatchLock s)],
                incoming := tl (incoming s), logs := logs s @ [m]\<rparr>)"
proof (cases hdl)
  case (SeqCallback c d)
  with assms show ?thesis by simp
next
  case (MonitorH mh)
  let ?s1 = "s\<lparr>trace := trace s @ [EvHandle p (dispatchLock s)]\<rparr>"
  have "case incoming ?s1 of [] \<Rightarrow> True | r # rs \<Rightarrow> h_msg (MonitorH mh) r = None"
    using assms(4) unfolding MonitorH by simp
  from h_msg_None_decode_log [OF this] obtain err where
    "decode_log ?s1 = (Inl err, ?s1\<lparr>incoming := tl (incoming ?s1)\<rparr>)"
    by blast
  with assms(1,3) MonitorH have
    x: "Handle p h s =
       deregisterHandler (h_seq hdl)
         (s\<lparr>trace := trace s @ [EvHandle p (dispatchLock s)],
            incoming := tl (incoming s),
            logs := logs s @ [''[ERR] Failed to decode log: '' @ err]\<rparr>)"
    by (simp add: Handle_def mh_Handle_def log_Printf_def)
  show ?thesis
    by (rule exI [where x = "''[ERR] Failed to decode log: '' @ err"], rule x)
next
  case (StreamH sh)
  let ?s1 = "s\<lparr>trace := trace s @ [EvHandle p (dispatchLock s)]\<rparr>"
  have "case incoming ?s1 of [] \<Rightarrow> True | r # rs \<Rightarrow> h_msg (StreamH sh) r = None"
    using assms(4) unfolding StreamH by simp
  from h_msg_None_decode_event [OF this] obtain err where
    "decode_event ?s1 = (Inl err, ?s1\<lparr>incoming := tl (incoming ?s1)\<rparr>)"
    by blast
  with assms(1,3) StreamH have
    x: "Handle p h s =
       deregisterHandler (h_seq hdl)
         (s\<lparr>trace := trace s @ [EvHandle p (dispatchLock s)],
            incoming := tl (incoming s),
            logs := logs s @ [''[ERR] Failed to decode stream record: '' @ err]\<rparr>)"
    by (simp add: Handle_def sh_Handle_def log_Printf_def)
  show ?thesis
    by (rule exI [where x = "''[ERR] Failed to decode stream record: '' @ err"], rule x)
qed

lemma listen_step_streaming_decode_fail:
  assumes "listening s" and "\<not> dispatchLock s" and "incoming s = InHeader h # rest"
      and "map_of (dispatch s) (rSeq h) = Some p"
      and "objs s p = hdl" and "streaming hdl" and "h_init hdl" and "\<not> h_closed hdl"
      and "h_seq hdl = rSeq h"
      and "case rest of [] \<Rightarrow> True | r # rs \<Rightarrow> h_msg hdl r = None"
      and "\<not> ch_closed (chans s (h_outCh hdl))"
  shows "\<exists>s'. listen_step s = Ok s' \<and> listening s' \<and> shutdown s' = shutdown s
           \<and> conn_open s' = conn_open s
           \<and> dispatch s' = AList.delete (rSeq h) (dispatch s)
           \<and> incoming s' = tl rest
           \<and> h_closed (objs s' p)
           \<and> ch_closed (chans s' (h_outCh hdl))"
proof -
  let ?s1 = "s\<lparr>incoming := rest, trace := trace s @ [EvLookup (rSeq h) True]\<rparr>"
  have l: "listen_step s = Handle p h ?s1"
    using assms(1-4) by (rule listen_step_header)
  have o: "objs ?s1 p = hdl" using assms(5) by simp
  have i: "case incoming ?s1 of [] \<Rightarrow> True | r # rs \<Rightarrow> h_msg hdl r = None"
    using assms(10) by simp
  from Handle_streaming_decode_fail [OF o assms(6,7) i, of h] obtain m where
    hdl: "Handle p h ?s1 =
           deregisterHandler (h_seq hdl)
             (?s1\<lparr>trace := trace ?s1 @ [EvHandle p (dispatchLock ?s1)],
                  incoming := tl (incoming ?s1), logs := logs ?s1 @ [m]\<rparr>)"
    by blast
  let ?s2 = "?s1\<lparr>trace := trace ?s1 @ [EvHandle p (dispatchLock ?s1)],
                  incoming := tl (incoming ?s1), logs := logs ?s1 @ [m]\<rparr>"
  let ?s3 = "?s2\<lparr>dispatch := AList.delete (rSeq h) (dispatch ?s2),
                  trace := trace ?s2 @ [EvDelete (rSeq h) True]\<rparr>"
  have "\<not> dispatchLock ?s2" "map_of (dispatch ?s2) (rSeq h) = Some p"
    using assms(2,4) by simp_all
  then have dr: "deregisterHandler (rSeq h) ?s2 = Cleanup p ?s3"
    by (rule deregisterHandler_Some)
  have c1: "objs ?s3 p = hdl" using assms(5) by simp
  have c2: "\<not> ch_closed (chans ?s3 (h_outCh hdl))" using assms(11) by simp
  have c3: "\<not> h_init hdl \<longrightarrow> has_room (h_initCh hdl) ?s3" using assms(7) by simp
  from Cleanup_first [OF c1 assms(6) assms(8) c2 c3] obtain s' where
    cl: "Cleanup p ?s3 = Ok s'"
    and cl1: "objs s' p = h_set_closed (h_set_init hdl)"
    and cl2: "ch_closed (chans s' (h_outCh hdl))"
    by blast
  note f = Cleanup_fields [OF cl] Cleanup_dispatch [OF cl]
  have "h_closed (objs s' p)" using cl1 assms(6) by (simp add: h_closed_set_closed)
  with l hdl dr cl cl2 f assms(1,9) show ?thesis by simp
qed

lemma cleanup_each_total:
  assumes "\<forall>p\<in>set ps. \<not> streaming (objs s p) \<or> h_closed (objs s p)"
  shows "\<exists>s'. cleanup_each ps s = Ok s'"
  using assms
proof (induction ps arbitrary: s)
  case Nil
  then show ?case by simp
next
  case (Cons p ps)
  let ?s1 = "s\<lparr>trace := trace s @ [EvCleanup p (dispatchLock s)]\<rparr>"
  have c: "Cleanup p s = Ok ?s1"
    using Cons.prems Cleanup_callback [of s p] Cleanup_closed [of s p] by auto
  have "\<forall>p\<in>set ps. \<not> streaming (objs ?s1 p) \<or> h_closed (objs ?s1 p)"
    using Cons.prems by simp
  from Cons.IH [OF this] c show ?case by simp
qed

lemma Close_total:
  assumes "\<not> dispatchLock s" and "shutdown s \<or> \<not> ch_closed (shutdownCh s)"
      and "\<forall>p\<in>set (map snd (dispatch s)). \<not> streaming (objs s p) \<or> h_closed (objs s p)"
  shows "\<exists>e s'. Close s = Ok (e, s')"
proof (cases "shutdown s")
  case True
  then show ?thesis by (simp add: Close_def)
next
  case False
  let ?s1 = "s\<lparr>shutdown := True, shutdownCh := (shutdownCh s)\<lparr>ch_closed := True\<rparr>,
                dispatchLock := True\<rparr>"
  have "\<forall>p\<in>set (map snd (dispatch s)). \<not> streaming (objs ?s1 p) \<or> h_closed (objs ?s1 p)"
    using assms(3) by simp
  from cleanup_each_total [OF this] obtain s2 where
    "cleanup_each (map snd (dispatch s)) ?s1 = Ok s2"
    by blast
  with False assms(1,2) show ?thesis
    by (simp add: Close_def close_shutdownCh_def deregisterAll_def lock_dispatch_def)
qed

lemma listen_step_header_fail_total:
  assumes "fst (decode_header s) = Inl err"
      and "\<not> dispatchLock s" and "shutdown s \<or> \<not> ch_closed (shutdownCh s)"
      and "\<forall>p\<in>set (map snd (dispatch s)). \<not> streaming (objs s p) \<or> h_closed (objs s p)"
  shows "\<exists>s'. listen_step s = Ok s'"
proof (cases "listening s")
  case False
  then show ?thesis by (simp add: listen_step_def)
next
  case True
  obtain s1 where d: "decode_header s = (Inl err, s1)"
    using assms(1) by (cases "decode_header s") simp
  have s1: "s1 = s\<lparr>incoming := tl (incoming s)\<rparr>"
    using decode_header_snd [of s] d by simp
  let ?s2 = "if \<not> shutdown s1
             then log_Printf (''[ERR] agent.client: Failed to decode response header: '' @ err) s1
             else s1"
  have "\<exists>e s'. Close ?s2 = Ok (e, s')"
    using assms(2-4) s1 by (intro Close_total) (auto simp add: log_Printf_def)
  with True d show ?thesis
    by (auto simp add: listen_step_def Let_def)
qed

text \<open>
  C1, as the code has it. A failed decode of a response header ends the
  listener and shuts the client down: when the iteration returns, the
  listener has returned, the client is shut down, every \<open>send\<close> fails with
  "client closed", and, if the client was open before, the connection is
  closed, the dispatch table empty and the shutdown channel closed; the
  iteration does return when only one-shot or closed handlers are registered.
  A failed decode of the payload of a one-shot response is the result of that
  call only: the decode error is put on its completion channel, and the
  listener goes on, with the client and the dispatch table as they were. A
  failed decode of a streaming payload ends that subscription only: its
  handler is removed from the table and closed, its delivery channel is
  closed, and the listener goes on, with the client open.
\<close>

theorem decode_failures:
  "(listening s \<and> fst (decode_header s) = Inl err \<longrightarrow>
      (\<forall>s'. listen_step s = Ok s' \<longrightarrow>
          \<not> listening s' \<and> shutdown s'
          \<and> (\<forall>hdr r. send hdr r s' = (clientClosed, s'))
          \<and> (\<not> shutdown s \<longrightarrow>
                \<not> conn_open s' \<and> dispatch s' = [] \<and> ch_closed (shutdownCh s')))
      \<and> (\<not> dispatchLock s \<and> (shutdown s \<or> \<not> ch_closed (shutdownCh s))
           \<and> (\<forall>p\<in>set (map snd (dispatch s)). \<not> streaming (objs s p) \<or> h_closed (objs s p))
           \<longrightarrow> (\<exists>s'. listen_step s = Ok s')))
   \<and> (listening s \<and> \<not> dispatchLock s \<and> incoming s = InHeader h # rest
        \<and> map_of (dispatch s) (rSeq h) = Some p
        \<and> objs s p = SeqCallback errCh (Some d)
        \<and> fst (decode_payload d (s\<lparr>incoming := rest\<rparr>)) = Some err
        \<and> has_room errCh s \<longrightarrow>
      (\<exists>s'. listen_step s = Ok s' \<and> listening s' \<and> shutdown s' = shutdown s
          \<and> conn_open s' = conn_open s \<and> dispatch s' = dispatch s
          \<and> incoming s' = tl rest
          \<and> ch_buf (chans s' errCh) = ch_buf (chans s errCh) @ [MErr (Some err)]))
   \<and> (listening s \<and> \<not> dispatchLock s \<and> incoming s = InHeader h # rest
        \<and> map_of (dispatch s) (rSeq h) = Some p
        \<and> objs s p = hdl \<and> streaming hdl \<and> h_init hdl \<and> \<not> h_closed hdl
        \<and> h_seq hdl = rSeq h
        \<and> (case rest of [] \<Rightarrow> True | r # rs \<Rightarrow> h_msg hdl r = None)
        \<and> \<not> ch_closed (chans s (h_outCh hdl)) \<longrightarrow>
      (\<exists>s'. listen_step s = Ok s' \<and> listening s' \<and> shutdown s' = shutdown s
          \<and> conn_open s' = conn_open s
          \<and> dispatch s' = AList.delete (rSeq h) (dispatch s)
          \<and> incoming s' = tl rest
          \<and> h_closed (objs s' p)
          \<and> ch_closed (chans s' (h_outCh hdl))))"
proof (intro conjI impI allI)
  fix s'
  assume "listening s \<and> fst (decode_header s) = Inl err" and "listen_step s = Ok s'"
  then have r: "\<not> listening s' \<and> shutdown s'
         \<and> (\<forall>h r. send h r s' = (clientClosed, s'))
         \<and> (\<not> shutdown s \<longrightarrow> \<not> conn_open s' \<and> dispatch s' = [] \<and> ch_closed (shutdownCh s'))"
    by (intro listen_step_header_fail) simp_all
  from r show "\<not> listening s'" by blast
  from r show "shutdown s'" by blast
  from r show "\<And>hdr r. send hdr r s' = (clientClosed, s')" by blast
  from r show "\<not> shutdown s \<Longrightarrow> \<not> conn_open s'" by blast
  from r show "\<not> shutdown s \<Longrightarrow> dispatch s' = []" by blast
  from r show "\<not> shutdown s \<Longrightarrow> ch_closed (shutdownCh s')" by blast
next
  assume "listening s \<and> fst (decode_header s) = Inl err"
    and "\<not> dispatchLock s \<and> (shutdown s \<or> \<not> ch_closed (shutdownCh s))
           \<and> (\<forall>p\<in>set (map snd (dispatch s)). \<not> streaming (objs s p) \<or> h_closed (objs s p))"
  then show "\<exists>s'. listen_step s = Ok s'"
    by (intro listen_step_header_fail_total [of s err]) simp_all
next
  assume "listening s \<and> \<not> dispatchLock s \<and> incoming s = InHeader h # rest
        \<and> map_of (dispatch s) (rSeq h) = Some p
        \<and> objs s p = SeqCallback errCh (Some d)
        \<and> fst (decode_payload d (s\<lparr>incoming := rest\<rparr>)) = Some err
        \<and> has_room errCh s"
  then show "\<exists>s'. listen_step s = Ok s' \<and> listening s' \<and> shutdown s' = shutdown s
          \<and> conn_open s' = conn_open s \<and> dispatch s' = dispatch s
          \<and> incoming s' = tl rest
          \<and> ch_buf (chans s' errCh) = ch_buf (chans s errCh) @ [MErr (Some err)]"
    by (intro listen_step_callback_decode_fail [of s h rest p errCh d err]) simp_all
next
  assume "listening s \<and> \<not> dispatchLock s \<and> incoming s = InHeader h # rest
        \<and> map_of (dispatch s) (rSeq h) = Some p
        \<and> objs s p = hdl \<and> streaming hdl \<and> h_init hdl \<and> \<not> h_closed hdl
        \<and> h_seq hdl = rSeq h
        \<and> (case rest of [] \<Rightarrow> True | r # rs \<Rightarrow> h_msg hdl r = None)
        \<and> \<not> ch_closed (chans s (h_outCh hdl))"
  then show "\<exists>s'. listen_step s = Ok s' \<and> listening s' \<and> shutdown s' = shutdown s
          \<and> conn_open s' = conn_open s
          \<and> dispatch s' = AList.delete (rSeq h) (dispatch s)
          \<and> incoming s' = tl rest
          \<and> h_closed (objs s' p)
          \<and> ch_closed (chans s' (h_outCh hdl))"
    by (intro listen_step_streaming_decode_fail [of s h rest p hdl]) simp_all
qed

theorem decode_failures_witness:
  "(listening (ex_streaming [Malformed])
      \<and> fst (decode_header (ex_streaming [Malformed])) = Inl errDecode
      \<and> \<not> shutdown (ex_streaming [Malformed])
      \<and> (\<exists>s'. listen_step (ex_streaming [Malformed]) = Ok s'
             \<and> \<not> listening s' \<and> shutdown s' \<and> \<not> conn_open s' \<and> dispatch s' = []
             \<and> send \<lparr>Command = leaveCommand, Seq = 2\<rparr> None s' = (clientClosed, s')))
   \<and> (listening (ex_leaving []) \<and> fst (decode_header (ex_leaving [])) = Inl errEOF
      \<and> (\<exists>s'. listen_step (ex_leaving []) = Ok s' \<and> shutdown s'))
   \<and> (\<exists>s'. listen_step
               (ex_joining [InHeader \<lparr>rSeq = 2, rError = ''join failed''\<rparr>, Malformed]) = Ok s'
          \<and> listening s' \<and> \<not> shutdown s' \<and> conn_open s'
          \<and> map_of (dispatch s') 2 = Some 1
          \<and> ch_buf (chans s' 1) = [MErr (Some errDecode)])
   \<and> (\<exists>s'. listen_step (ex_streaming [InHeader \<lparr>rSeq = 1, rError = []\<rparr>, Malformed]) = Ok s'
          \<and> listening s' \<and> \<not> shutdown s' \<and> conn_open s'
          \<and> dispatch s' = []
          \<and> h_closed (objs s' 0)
          \<and> ch_closed (chans s' 0))"
proof (intro conjI)
  let ?s = "ex_streaming [Malformed]"
  note t = decode_failures [where s = ?s and err = errDecode, THEN conjunct1]
  have a: "listening ?s" by code_simp
  have b: "fst (decode_header ?s) = Inl errDecode" by code_simp
  have c: "\<not> shutdown ?s" by code_simp
  have "rbind (listen_step ?s) (\<lambda>s'. Ok (seq s')) = Ok 1" by code_simp
  then obtain s' where d: "listen_step ?s = Ok s'" by (auto simp add: rbind_eq_Ok)
  from t a b d c have "\<not> listening s' \<and> shutdown s' \<and> \<not> conn_open s' \<and> dispatch s' = []
      \<and> send \<lparr>Command = leaveCommand, Seq = 2\<rparr> None s' = (clientClosed, s')"
    by blast
  with d show "\<exists>s'. listen_step ?s = Ok s'
             \<and> \<not> listening s' \<and> shutdown s' \<and> \<not> conn_open s' \<and> dispatch s' = []
             \<and> send \<lparr>Command = leaveCommand, Seq = 2\<rparr> None s' = (clientClosed, s')"
    by blast
  show "listening ?s" by (rule a)
  show "fst (decode_header ?s) = Inl errDecode" by (rule b)
  show "\<not> shutdown ?s" by (rule c)
next
  let ?s = "ex_leaving []"
  note t = decode_failures [where s = ?s and err = errEOF, THEN conjunct1]
  have a: "listening ?s" by code_simp
  have b: "fst (decode_header ?s) = Inl errEOF" by code_simp
  have c: "\<not> dispatchLock ?s" by code_simp
  have d: "\<not> ch_closed (shutdownCh ?s)" by code_simp
  have e: "map snd (dispatch ?s) = [1]" by code_simp
  have f: "\<not> streaming (objs ?s 1)" by code_simp
  from e f have g: "\<forall>p\<in>set (map snd (dispatch ?s)). \<not> streaming (objs ?s p) \<or> h_closed (objs ?s p)"
    by simp
  from t a b c d g obtain s' where h: "listen_step ?s = Ok s'" by blast
  with t a b have "shutdown s'" by blast
  with h show "\<exists>s'. listen_step ?s = Ok s' \<and> shutdown s'" by blast
  show "listening ?s" by (rule a)
  show "fst (decode_header ?s) = Inl errEOF" by (rule b)
next
  let ?s = "ex_joining [InHeader \<lparr>rSeq = 2, rError = ''join failed''\<rparr>, Malformed]"
  note t = decode_failures [where s = ?s and err = errDecode
             and h = "\<lparr>rSeq = 2, rError = ''join failed''\<rparr>" and rest = "[Malformed]"
             and p = 1 and errCh = 1 and d = 0,
             THEN conjunct2, THEN conjunct1]
  have a: "listening ?s" by code_simp
  have b: "\<not> dispatchLock ?s" by code_simp
  have c: "incoming ?s = [InHeader \<lparr>rSeq = 2, rError = ''join failed''\<rparr>, Malformed]"
    by code_simp
  have d: "map_of (dispatch ?s) 2 = Some 1" by code_simp
  have e: "objs ?s 1 = SeqCallback 1 (Some 0)" by code_simp
  have f: "fst (decode_payload 0 (?s\<lparr>incoming := [Malformed]\<rparr>)) = Some errDecode"
    by code_simp
  have g: "has_room 1 ?s" by code_simp
  have h: "\<not> shutdown ?s" by code_simp
  have i: "conn_open ?s" by code_simp
  have j: "ch_buf (chans ?s 1) = []" by code_simp
  from t a b c d e f g obtain s' where
    "listen_step ?s = Ok s'" "listening s'" "shutdown s' = shutdown ?s"
    "conn_open s' = conn_open ?s" "dispatch s' = dispatch ?s"
    "ch_buf (chans s' 1) = ch_buf (chans ?s 1) @ [MErr (Some errDecode)]"
    by auto
  with d h i j show "\<exists>s'. listen_step ?s = Ok s'
          \<and> listening s' \<and> \<not> shutdown s' \<and> conn_open s'
          \<and> map_of (dispatch s') 2 = Some 1
          \<and> ch_buf (chans s' 1) = [MErr (Some errDecode)]"
    by auto
next
  let ?s = "ex_streaming [InHeader \<lparr>rSeq = 1, rError = []\<rparr>, Malformed]"
  note t = decode_failures [where s = ?s and h = "\<lparr>rSeq = 1, rError = []\<rparr>"
             and rest = "[Malformed]" and p = 0 and hdl = "objs ?s 0",
             THEN conjunct2, THEN conjunct2]
  have a: "listening ?s" by code_simp
  have b: "\<not> dispatchLock ?s" by code_simp
  have c: "incoming ?s = [InHeader \<lparr>rSeq = 1, rError = []\<rparr>, Malformed]" by code_simp
  have d: "map_of (dispatch ?s) 1 = Some 0" by code_simp
  have e: "streaming (objs ?s 0)" "h_init (objs ?s 0)" "\<not> h_closed (objs ?s 0)"
          "h_seq (objs ?s 0) = 1"
    by code_simp+
  have f: "h_msg (objs ?s 0) Malformed = None" by code_simp
  have g: "\<not> ch_closed (chans ?s (h_outCh (objs ?s 0)))" by code_simp
  have h: "\<not> shutdown ?s" by code_simp
  have i: "conn_open ?s" by code_simp
  have j: "AList.delete 1 (dispatch ?s) = []" by code_simp
  have k: "h_outCh (objs ?s 0) = 0" by code_simp
  from t a b c d e f g obtain s' where
    "listen_step ?s = Ok s'" "listening s'" "shutdown s' = shutdown ?s"
    "conn_open s' = conn_open ?s" "dispatch s' = AList.delete 1 (dispatch ?s)"
    "h_closed (objs s' 0)" "ch_closed (chans s' (h_outCh (objs ?s 0)))"
    by auto
  with h i j k show "\<exists>s'. listen_step ?s = Ok s'
          \<and> listening s' \<and> \<not> shutdown s' \<and> conn_open s'
          \<and> dispatch s' = []
          \<and> h_closed (objs s' 0)
          \<and> ch_closed (chans s' 0)"
    by auto
qed

text \<open>
  C1 as stated fails for the two payload decodes. The agent answers a \<open>Join\<close>
  with a header and a record that is no \<open>joinResponse\<close>: \<open>Join\<close> returns the
  decode error, the client is not shut down and the listener runs on, and the
  \<open>Leave\<close> that follows succeeds. And a subscription whose next record does
  not decode is dropped with a log line, with the client open and the listener
  running.
\<close>

theorem payload_decode_failure_not_fatal:
  "rbind (Join [''10.0.0.2:7946''] False FirstCase
            (ex_connected [InHeader \<lparr>rSeq = 2, rError = []\<rparr>, Malformed,
                           InHeader \<lparr>rSeq = 3, rError = []\<rparr>]))
         (\<lambda>((n, e), s). rbind (Leave FirstCase s) (\<lambda>(e', s').
            Ok (e, shutdown s, listening s, conn_open s, e', shutdown s')))
     = Ok (Some errDecode, False, True, True, None, False)
   \<and> rbind (listen_step (ex_streaming [InHeader \<lparr>rSeq = 1, rError = []\<rparr>, Malformed]))
         (\<lambda>s'. Ok (logs s', listening s', shutdown s', conn_open s'))
     = Ok ([''[ERR] Failed to decode log: msgpack decode error''], True, False, True)"
  by code_simp

section \<open>Whole calls\<close>

lemma cstep_refl: "cstep s s"
  by (simp add: cstep_def)

lemma cstep_trans:
  assumes "cstep s s1" and "cstep s1 s2"
  shows "cstep s s2"
  unfolding cstep_def
proof (intro conjI)
  show "next_chan s \<le> next_chan s2"
    using assms unfolding cstep_def by linarith
  show "\<forall>c<next_chan s. ch_closed (chans s c) \<longrightarrow> chans s2 c = chans s c"
  proof (intro allI impI)
    fix c
    assume c: "c < next_chan s" and cl: "ch_closed (chans s c)"
    from assms(1) c cl have a: "chans s1 c = chans s c" "c < next_chan s1"
      unfolding cstep_def by auto
    with assms(2) cl have "chans s2 c = chans s1 c"
      unfolding cstep_def by auto
    with a show "chans s2 c = chans s c" by simp
  qed
  show "\<exists>tr. trace s2 = trace s @ tr"
    using assms unfolding cstep_def by (metis append.assoc)
  show "dispatchLock s2 = dispatchLock s"
    using assms unfolding cstep_def by simp
  show "shutdown s \<longrightarrow> shutdown s2"
    using assms unfolding cstep_def by blast
  show "shutdown s = ch_closed (shutdownCh s) \<longrightarrow> shutdown s2 = ch_closed (shutdownCh s2)"
    using assms unfolding cstep_def by blast
  show "(shutdown s \<longrightarrow> \<not> conn_open s) \<longrightarrow> (shutdown s2 \<longrightarrow> \<not> conn_open s2)"
    using assms unfolding cstep_def by blast
qed

lemma lstep_cstep: "lstep s s' \<Longrightarrow> cstep s s'"
  by (simp add: lstep_def cstep_def)

lemma lstep_keys: "lstep s s' \<Longrightarrow> keys s' \<subseteq> keys s"
  by (auto simp add: lstep_def keys_def)

lemma lstep_seq: "lstep s s' \<Longrightarrow> seq s' = seq s"
  by (simp add: lstep_def)

lemma keys_map_of: "map_of (dispatch s) k = None \<longleftrightarrow> k \<notin> keys s"
  by (simp add: keys_def map_of_eq_None_iff)

lemma deregisterHandler_keys: "deregisterHandler q s = Ok s' \<Longrightarrow> keys s' = keys s - {q}"
  by (auto simp add: deregisterHandler_dispatch keys_def AList.delete_eq)

lemma genericRPC_begin_frame:
  assumes "genericRPC_begin h r d s = Ok (x, s1)"
  shows "cstep s s1 \<and> seq s1 = seq s
         \<and> (\<forall>c<next_chan s. chans s1 c = chans s c)
         \<and> ((x = Waiting (next_chan s) \<and> keys s1 = insert (Seq h) (keys s))
             \<or> ((\<exists>e. x = Returned (Some e)) \<and> keys s1 = keys s - {Seq h}))"
proof -
  let ?c = "next_chan s" and ?p = "next_obj s" and ?q = "Seq h"
  let ?s2 = "s\<lparr>chans := (chans s)(?c := \<lparr>ch_buf = [], ch_cap = 1, ch_closed = False, ch_recvq = 0\<rparr>),
                next_chan := Suc ?c,
                objs := (objs s)(?p := SeqCallback ?c d),
                next_obj := Suc ?p\<rparr>"
  let ?s3 = "?s2\<lparr>dispatch := AList.update ?q ?p (dispatch ?s2),
                   trace := trace ?s2 @ [EvRegister ?q ?p True]\<rparr>"
  from assms obtain s3 where hs: "handleSeq ?q ?p ?s2 = Ok s3"
    by (auto simp add: genericRPC_begin_def make_chan_def new_obj_def rbind_eq_Ok)
  then have l: "\<not> dispatchLock s"
    by (auto simp add: handleSeq_def rbind_eq_Ok lock_dispatch_Ok)
  then have h3: "handleSeq ?q ?p ?s2 = Ok ?s3" by (simp add: handleSeq_Ok)
  obtain e s4 where sd: "send h r ?s3 = (e, s4)" by (cases "send h r ?s3")
  note f = send_frame [OF sd]
  have g: "(case e of
              Some err \<Rightarrow> rbind (deregisterHandler ?q s4) (\<lambda>s5. Ok (Returned (Some err), s5))
            | None \<Rightarrow> Ok (Waiting ?c, s4)) = Ok (x, s1)"
    using assms h3 sd
    by (simp add: genericRPC_begin_def make_chan_def new_obj_def split: option.splits)
  have c4: "cstep s s4" using f by (auto simp add: cstep_def)
  have k4: "keys s4 = insert ?q (keys s)"
    using f by (simp add: keys_def dom_update)
  have ch4: "\<forall>c<next_chan s. chans s4 c = chans s c" using f by simp
  have q4: "seq s4 = seq s" using f by simp
  show ?thesis
  proof (cases e)
    case None
    with g c4 k4 ch4 q4 show ?thesis by auto
  next
    case (Some err)
    with g have dr: "deregisterHandler ?q s4 = Ok s1" and x: "x = Returned (Some err)"
      by (auto simp add: rbind_eq_Ok)
    note ls = lstep_deregisterHandler [OF dr]
    have "cstep s s1" using c4 lstep_cstep [OF ls] by (rule cstep_trans)
    moreover have "seq s1 = seq s" using q4 lstep_seq [OF ls] by simp
    moreover have "keys s1 = keys s - {?q}"
      using deregisterHandler_keys [OF dr] k4 by auto
    moreover have "\<forall>c<next_chan s. chans s1 c = chans s c"
    proof (intro allI impI)
      fix c assume c: "c < next_chan s"
      from dr have l4: "\<not> dispatchLock s4" by (rule deregisterHandler_unlocked)
      have m: "map_of (dispatch s4) ?q = Some ?p" using f by (simp add: update_conv')
      let ?s5 = "s4\<lparr>dispatch := AList.delete ?q (dispatch s4), trace := trace s4 @ [EvDelete ?q True]\<rparr>"
      have "\<not> streaming (objs ?s5 ?p)" using f by simp
      from Cleanup_callback [OF this] l4 m dr
      have "s1 = ?s5\<lparr>trace := trace ?s5 @ [EvCleanup ?p (dispatchLock ?s5)]\<rparr>"
        by (simp add: deregisterHandler_Some)
      then have "chans s1 = chans s4" by simp
      with ch4 c show "chans s1 c = chans s c" by simp
    qed
    ultimately show ?thesis using x by blast
  qed
qed

lemma genericRPC_frame:
  assumes "genericRPC h r d pick s = Ok (e, s')"
  shows "cstep s s' \<and> seq s' = seq s \<and> keys s' \<subseteq> keys s - {Seq h}"
proof -
  from assms obtain x s1 where
    b: "genericRPC_begin h r d s = Ok (x, s1)"
    and rest: "(case x of
                  Returned err \<Rightarrow> Ok (err, s1)
                | Waiting errCh \<Rightarrow> rbind (await errCh s1) (genericRPC_end h errCh pick))
               = Ok (e, s')"
    by (auto simp add: genericRPC_def rbind_eq_Ok)
  note f = genericRPC_begin_frame [OF b]
  show ?thesis
  proof (cases x)
    case (Returned err)
    with rest f show ?thesis by auto
  next
    case (Waiting errCh)
    with f have ec: "errCh = next_chan s" and k1: "keys s1 = insert (Seq h) (keys s)" by auto
    from rest Waiting obtain s2 v s3 where
      aw: "await errCh s1 = Ok s2"
      and sel: "select_recv errCh pick s2 = Ok (v, s3)"
      and dr: "deregisterHandler (Seq h) s3 = Ok s'"
      by (auto simp add: rbind_eq_Ok genericRPC_end_def)
    note l2 = lstep_await [OF aw]
    note f3 = select_recv_frame [OF sel]
    note l4 = lstep_deregisterHandler [OF dr]
    have c1: "cstep s s1" using f by simp
    have c2: "cstep s s2" using c1 lstep_cstep [OF l2] by (rule cstep_trans)
    have c3: "cstep s s3"
      unfolding cstep_def
    proof (intro conjI)
      show "next_chan s \<le> next_chan s3" using c2 f3 by (simp add: cstep_def)
      show "\<forall>c<next_chan s. ch_closed (chans s c) \<longrightarrow> chans s3 c = chans s c"
        using c2 f3 ec by (auto simp add: cstep_def)
      show "\<exists>tr. trace s3 = trace s @ tr" using c2 f3 by (simp add: cstep_def)
      show "dispatchLock s3 = dispatchLock s" using c2 f3 by (simp add: cstep_def)
      show "shutdown s \<longrightarrow> shutdown s3" using c2 f3 by (simp add: cstep_def)
      show "shutdown s = ch_closed (shutdownCh s) \<longrightarrow> shutdown s3 = ch_closed (shutdownCh s3)"
        using c2 f3 by (simp add: cstep_def)
      show "(shutdown s \<longrightarrow> \<not> conn_open s) \<longrightarrow> (shutdown s3 \<longrightarrow> \<not> conn_open s3)"
        using c2 f3 by (simp add: cstep_def)
    qed
    have "cstep s s'" using c3 lstep_cstep [OF l4] by (rule cstep_trans)
    moreover have "seq s' = seq s"
      using f lstep_seq [OF l2] f3 lstep_seq [OF l4] by simp
    moreover have "keys s' \<subseteq> keys s - {Seq h}"
    proof -
      have "keys s2 \<subseteq> insert (Seq h) (keys s)" using lstep_keys [OF l2] k1 by simp
      moreover have "keys s3 = keys s2" using f3 by (simp add: keys_def)
      moreover have "keys s' = keys s3 - {Seq h}" using dr by (rule deregisterHandler_keys)
      ultimately show ?thesis by auto
    qed
    ultimately show ?thesis by blast
  qed
qed

section \<open>Construction\<close>

lemma Close_result: "Close s = Ok (e, s') \<Longrightarrow> e = None"
  by (auto simp add: Close_def rbind_eq_Ok split: if_splits)

lemma handshake_frame:
  assumes "handshake ver pick s = Ok (e, s')"
  shows "cstep s s' \<and> keys s' \<subseteq> keys s"
proof -
  let ?s1 = "s\<lparr>seq := seq s + 1\<rparr>"
  from assms have "genericRPC \<lparr>Command = handshakeCommand, Seq = seq s + 1\<rparr>
                     (Some (handshakeRequest ver)) None pick ?s1 = Ok (e, s')"
    by (simp add: handshake_def getSeq_def)
  from genericRPC_frame [OF this] have "cstep ?s1 s'" "keys s' \<subseteq> keys ?s1"
    by auto
  moreover have "cstep s ?s1" by (simp add: cstep_def)
  moreover have "keys ?s1 = keys s" by (simp add: keys_def)
  ultimately show ?thesis by (auto intro: cstep_trans)
qed

lemma Close_after_handshake:
  assumes "handshake ver pick (new_client input) = Ok (e, c1)"
  shows "\<exists>c2. Close c1 = Ok (None, c2) \<and> \<not> conn_open c2 \<and> shutdown c2 \<and> dispatch c2 = []"
proof -
  from handshake_frame [OF assms] have c: "cstep (new_client input) c1"
    and k: "keys c1 \<subseteq> keys (new_client input)"
    by simp_all
  have d: "dispatch c1 = []" using k by (simp add: keys_def new_client_def)
  have l: "\<not> dispatchLock c1" using c by (simp add: cstep_def new_client_def)
  have s1: "shutdown c1 = ch_closed (shutdownCh c1)"
    using c by (simp add: cstep_def new_client_def)
  have s2: "shutdown c1 \<longrightarrow> \<not> conn_open c1"
    using c by (simp add: cstep_def new_client_def)
  have "\<exists>e2 c2. Close c1 = Ok (e2, c2)"
    using l s1 d by (intro Close_total) auto
  then obtain e2 c2 where cl: "Close c1 = Ok (e2, c2)" by blast
  have e2: "e2 = None" using cl by (rule Close_result)
  note ef = Close_effect [OF cl]
  have "\<not> conn_open c2"
  proof (cases "shutdown c1")
    case True
    with cl have "c2 = c1" by (simp add: Close_def)
    with True s2 show ?thesis by simp
  next
    case False
    with ef show ?thesis by simp
  qed
  moreover have "dispatch c2 = []"
    using lstep_Close [OF cl] d by (simp add: lstep_def)
  ultimately show ?thesis using cl e2 ef by blast
qed

text \<open>
  C8. When the handshake of \<open>NewRPCClient\<close> returns an error,
  \<open>NewRPCClient\<close> returns the \<open>nil\<close> client and that error, and the client it
  had built is left with its connection closed, shut down, and with no
  handler registered. Whatever \<open>NewRPCClient\<close> returns, the client is \<open>nil\<close>
  exactly when the error is not.
\<close>

theorem NewRPCClient_handshake_failure:
  "(handshake ver pick (new_client input) = Ok (Some e, cl) \<longrightarrow>
      (\<exists>c2. NewRPCClient ver (Inr input) pick = Ok (None, Some e, Some c2)
         \<and> \<not> conn_open c2 \<and> shutdown c2 \<and> dispatch c2 = []))
   \<and> (\<forall>c err b. NewRPCClient ver dial pick = Ok (c, err, b) \<longrightarrow> (c = None \<longleftrightarrow> err \<noteq> None))"
proof (intro conjI impI allI)
  assume h: "handshake ver pick (new_client input) = Ok (Some e, cl)"
  from Close_after_handshake [OF h] obtain c2 where
    "Close cl = Ok (None, c2)" "\<not> conn_open c2" "shutdown c2" "dispatch c2 = []"
    by blast
  with h show "\<exists>c2. NewRPCClient ver (Inr input) pick = Ok (None, Some e, Some c2)
         \<and> \<not> conn_open c2 \<and> shutdown c2 \<and> dispatch c2 = []"
    by (simp add: NewRPCClient_def)
next
  fix c err b
  assume n: "NewRPCClient ver dial pick = Ok (c, err, b)"
  show "c = None \<longleftrightarrow> err \<noteq> None"
  proof (cases dial)
    case (Inl m)
    with n show ?thesis by (auto simp add: NewRPCClient_def)
  next
    case (Inr input)
    with n obtain e1 c1 where
      h: "handshake ver pick (new_client input) = Ok (e1, c1)"
      and r: "(if e1 \<noteq> None
               then rbind (Close c1) (\<lambda>(e, c2). Ok (None, e1, Some c2))
               else Ok (Some c1, e1, Some c1)) = Ok (c, err, b)"
      by (auto simp add: NewRPCClient_def rbind_eq_Ok Let_def)
    show ?thesis
    proof (cases e1)
      case None
      with r show ?thesis by auto
    next
      case (Some m)
      with r show ?thesis by (auto simp add: rbind_eq_Ok)
    qed
  qed
qed

theorem NewRPCClient_handshake_failure_witness:
  "rbind (handshake 1 FirstCase (new_client [InHeader \<lparr>rSeq = 1, rError = ''unsupported version''\<rparr>]))
         (\<lambda>(e, s). Ok e) = Ok (Some ''unsupported version'')
   \<and> (\<exists>c2. NewRPCClient 1 (Inr [InHeader \<lparr>rSeq = 1, rError = ''unsupported version''\<rparr>]) FirstCase
               = Ok (None, Some ''unsupported version'', Some c2)
          \<and> \<not> conn_open c2 \<and> shutdown c2 \<and> dispatch c2 = [])
   \<and> rbind (NewRPCClient 1 (Inr [InHeader \<lparr>rSeq = 1, rError = []\<rparr>]) FirstCase)
         (\<lambda>(c, err, b). Ok (c \<noteq> None, err)) = Ok (True, None)"
proof -
  let ?i = "[InHeader \<lparr>rSeq = 1, rError = ''unsupported version''\<rparr>]"
  have a: "rbind (handshake 1 FirstCase (new_client ?i)) (\<lambda>(e, s). Ok e)
             = Ok (Some ''unsupported version'')"
    by code_simp
  then obtain c1 where h: "handshake 1 FirstCase (new_client ?i) = Ok (Some ''unsupported version'', c1)"
    by (auto simp add: rbind_eq_Ok)
  from NewRPCClient_handshake_failure
         [where ver = 1 and pick = FirstCase and input = ?i and e = "''unsupported version''"
            and cl = c1, THEN conjunct1] h
  have b: "\<exists>c2. NewRPCClient 1 (Inr ?i) FirstCase = Ok (None, Some ''unsupported version'', Some c2)
          \<and> \<not> conn_open c2 \<and> shutdown c2 \<and> dispatch c2 = []"
    by blast
  have c: "rbind (NewRPCClient 1 (Inr [InHeader \<lparr>rSeq = 1, rError = []\<rparr>]) FirstCase)
         (\<lambda>(c, err, b). Ok (c \<noteq> None, err)) = Ok (True, None)"
    by code_simp
  from a b c show ?thesis by blast
qed

section \<open>\<open>Stop\<close>\<close>








section \<open>Handles and sequence numbers\<close>

lemma Monitor_begin_frame:
  assumes "Monitor_begin level ch s = Ok (x, s1)"
  shows "seq s1 = seq s + 1
         \<and> ((x = Waiting (seq s + 1, next_chan s) \<and> \<not> shutdown s \<and> write_err s = None
               \<and> keys s1 = insert (seq s + 1) (keys s))
             \<or> (x = Returned (0, if shutdown s then clientClosed else write_err s)
               \<and> (shutdown s \<or> write_err s \<noteq> None)
               \<and> keys s1 = keys s - {seq s + 1}))"
proof -
  let ?c = "next_chan s" and ?p = "next_obj s" and ?q = "seq s + 1"
  let ?h = "\<lparr>Command = monitorCommand, Seq = ?q\<rparr>"
  let ?s3 = "s\<lparr>seq := ?q,
                chans := (chans s)(?c := \<lparr>ch_buf = [], ch_cap = 1, ch_closed = False, ch_recvq = 0\<rparr>),
                next_chan := Suc ?c,
                objs := (objs s)(?p := MonitorH \<lparr>mh_closed = False, mh_init = False,
                           mh_initCh = ?c, mh_logCh = ch, mh_seq = ?q\<rparr>),
                next_obj := Suc ?p\<rparr>"
  let ?s4 = "?s3\<lparr>dispatch := AList.update ?q ?p (dispatch ?s3),
                   trace := trace ?s3 @ [EvRegister ?q ?p True]\<rparr>"
  from assms obtain s4 where hs: "handleSeq ?q ?p ?s3 = Ok s4"
    by (auto simp add: Monitor_begin_def getSeq_def make_chan_def new_obj_def rbind_eq_Ok)
  then have l: "\<not> dispatchLock s"
    by (auto simp add: handleSeq_def rbind_eq_Ok lock_dispatch_Ok)
  then have h4: "handleSeq ?q ?p ?s3 = Ok ?s4" by (simp add: handleSeq_Ok)
  obtain e s5 where sd: "send ?h (Some (monitorRequest level)) ?s4 = (e, s5)"
    by (cases "send ?h (Some (monitorRequest level)) ?s4")
  note f = send_frame [OF sd]
  note w = send_wire [OF sd]
  have g: "(case e of
              Some err \<Rightarrow> rbind (deregisterHandler ?q s5) (\<lambda>s6. Ok (Returned (0, Some err), s6))
            | None \<Rightarrow> Ok (Waiting (?q, ?c), s5)) = Ok (x, s1)"
    using assms h4 sd
    by (simp add: Monitor_begin_def getSeq_def make_chan_def new_obj_def split: option.splits)
  have k5: "keys s5 = insert ?q (keys s)"
    using f by (simp add: keys_def dom_update)
  have q5: "seq s5 = ?q" using f by simp
  show ?thesis
  proof (cases e)
    case None
    with w have "\<not> shutdown s" "write_err s = None" by simp_all
    with None g k5 q5 show ?thesis by simp
  next
    case (Some err)
    with g have dr: "deregisterHandler ?q s5 = Ok s1" and x: "x = Returned (0, Some err)"
      by (auto simp add: rbind_eq_Ok)
    note ls = lstep_deregisterHandler [OF dr]
    have a: "seq s1 = ?q" using q5 lstep_seq [OF ls] by simp
    have b: "keys s1 = keys s - {?q}"
      using deregisterHandler_keys [OF dr] k5 by auto
    from Some w have c: "shutdown s \<or> write_err s \<noteq> None"
      and d: "Some err = (if shutdown s then clientClosed else write_err s)"
      by auto
    from x d have "x = Returned (0, if shutdown s then clientClosed else write_err s)"
      by simp
    with a b c show ?thesis by blast
  qed
qed

lemma Stream_begin_frame:
  assumes "Stream_begin fltr ch s = Ok (x, s1)"
  shows "seq s1 = seq s + 1
         \<and> ((x = Waiting (seq s + 1, next_chan s) \<and> \<not> shutdown s \<and> write_err s = None
               \<and> keys s1 = insert (seq s + 1) (keys s))
             \<or> (x = Returned (0, if shutdown s then clientClosed else write_err s)
               \<and> (shutdown s \<or> write_err s \<noteq> None)
               \<and> keys s1 = keys s - {seq s + 1}))"
proof -
  let ?c = "next_chan s" and ?p = "next_obj s" and ?q = "seq s + 1"
  let ?h = "\<lparr>Command = streamCommand, Seq = ?q\<rparr>"
  let ?s3 = "s\<lparr>seq := ?q,
                chans := (chans s)(?c := \<lparr>ch_buf = [], ch_cap = 1, ch_closed = False, ch_recvq = 0\<rparr>),
                next_chan := Suc ?c,
                objs := (objs s)(?p := StreamH \<lparr>sh_closed = False, sh_init = False,
                           sh_initCh = ?c, sh_eventCh = ch, sh_seq = ?q\<rparr>),
                next_obj := Suc ?p\<rparr>"
  let ?s4 = "?s3\<lparr>dispatch := AList.update ?q ?p (dispatch ?s3),
                   trace := trace ?s3 @ [EvRegister ?q ?p True]\<rparr>"
  from assms obtain s4 where hs: "handleSeq ?q ?p ?s3 = Ok s4"
    by (auto simp add: Stream_begin_def getSeq_def make_chan_def new_obj_def rbind_eq_Ok)
  then have l: "\<not> dispatchLock s"
    by (auto simp add: handleSeq_def rbind_eq_Ok lock_dispatch_Ok)
  then have h4: "handleSeq ?q ?p ?s3 = Ok ?s4" by (simp add: handleSeq_Ok)
  obtain e s5 where sd: "send ?h (Some (streamRequest fltr)) ?s4 = (e, s5)"
    by (cases "send ?h (Some (streamRequest fltr)) ?s4")
  note f = send_frame [OF sd]
  note w = send_wire [OF sd]
  have g: "(case e of
              Some err \<Rightarrow> rbind (deregisterHandler ?q s5) (\<lambda>s6. Ok (Returned (0, Some err), s6))
            | None \<Rightarrow> Ok (Waiting (?q, ?c), s5)) = Ok (x, s1)"
    using assms h4 sd
    by (simp add: Stream_begin_def getSeq_def make_chan_def new_obj_def split: option.splits)
  have k5: "keys s5 = insert ?q (keys s)"
    using f by (simp add: keys_def dom_update)
  have q5: "seq s5 = ?q" using f by simp
  show ?thesis
  proof (cases e)
    case None
    with w have "\<not> shutdown s" "write_err s = None" by simp_all
    with None g k5 q5 show ?thesis by simp
  next
    case (Some err)
    with g have dr: "deregisterHandler ?q s5 = Ok s1" and x: "x = Returned (0, Some err)"
      by (auto simp add: rbind_eq_Ok)
    note ls = lstep_deregisterHandler [OF dr]
    have a: "seq s1 = ?q" using q5 lstep_seq [OF ls] by simp
    have b: "keys s1 = keys s - {?q}"
      using deregisterHandler_keys [OF dr] k5 by auto
    from Some w have c: "shutdown s \<or> write_err s \<noteq> None"
      and d: "Some err = (if shutdown s then clientClosed else write_err s)"
      by auto
    from x d have "x = Returned (0, if shutdown s then clientClosed else write_err s)"
      by simp
    with a b c show ?thesis by blast
  qed
qed

lemma subscribe_end_frame:
  assumes "rbind (select_recv initCh pick s) (\<lambda>(v, s1).
             case v of
               Some m \<Rightarrow> Ok ((q, the_err m), s1)
             | None \<Rightarrow> rbind (deregisterHandler q s1) (\<lambda>s2. Ok ((0, clientClosed), s2)))
           = Ok (r, s')"
  shows "seq s' = seq s \<and> keys s' \<subseteq> keys s
         \<and> (r = (q, the_err (fst (chan_recv initCh s))) \<or> r = (0, clientClosed))
         \<and> (ch_closed (shutdownCh s) \<and> (\<not> chan_can_recv initCh s \<or> pick = SecondCase)
              \<longrightarrow> r = (0, clientClosed))
         \<and> (chan_can_recv initCh s \<and> (\<not> ch_closed (shutdownCh s) \<or> pick = FirstCase)
              \<longrightarrow> r = (q, the_err (fst (chan_recv initCh s))))"
proof -
  from assms obtain v s1 where
    sel: "select_recv initCh pick s = Ok (v, s1)"
    and rest: "(case v of
                  Some m \<Rightarrow> Ok ((q, the_err m), s1)
                | None \<Rightarrow> rbind (deregisterHandler q s1) (\<lambda>s2. Ok ((0, clientClosed), s2)))
               = Ok (r, s')"
    by (auto simp add: rbind_eq_Ok)
  note f = select_recv_frame [OF sel]
  have k1: "keys s1 = keys s" using f by (simp add: keys_def)
  have sb: "ch_closed (shutdownCh s) \<and> (\<not> chan_can_recv initCh s \<or> pick = SecondCase)
              \<longrightarrow> v = None"
    using sel by (auto simp add: select_recv_second)
  have fb: "chan_can_recv initCh s \<and> (\<not> ch_closed (shutdownCh s) \<or> pick = FirstCase)
              \<longrightarrow> v = Some (fst (chan_recv initCh s))"
    using sel by (auto simp add: select_recv_first)
  have ex: "(ch_closed (shutdownCh s) \<and> (\<not> chan_can_recv initCh s \<or> pick = SecondCase))
            \<or> (chan_can_recv initCh s \<and> (\<not> ch_closed (shutdownCh s) \<or> pick = FirstCase))"
    using sel by (cases pick) (auto simp add: select_recv_def split: if_splits)
  show ?thesis
  proof (cases v)
    case (Some m)
    with sb fb ex have m: "m = fst (chan_recv initCh s)"
      and c: "chan_can_recv initCh s \<and> (\<not> ch_closed (shutdownCh s) \<or> pick = FirstCase)"
      and n: "\<not> (ch_closed (shutdownCh s) \<and> (\<not> chan_can_recv initCh s \<or> pick = SecondCase))"
      by auto
    from Some rest have "r = (q, the_err m)" "s' = s1" by simp_all
    with m c n f k1 show ?thesis by auto
  next
    case None
    with rest obtain s2 where dr: "deregisterHandler q s1 = Ok s2"
      and r: "r = (0, clientClosed)" "s' = s2"
      by (auto simp add: rbind_eq_Ok)
    from lstep_deregisterHandler [OF dr] have "seq s2 = seq s1" "keys s2 \<subseteq> keys s1"
      by (simp_all add: lstep_seq lstep_keys)
    moreover from None fb have
      "\<not> (chan_can_recv initCh s \<and> (\<not> ch_closed (shutdownCh s) \<or> pick = FirstCase))"
      by auto
    ultimately show ?thesis using r f k1 by auto
  qed
qed

lemma Monitor_frame:
  assumes "Monitor level ch pick s = Ok (r, s')"
  shows "seq s' = seq s + 1 \<and> keys s' \<subseteq> insert (seq s + 1) (keys s)
         \<and> (fst r = seq s + 1 \<or> (fst r = 0 \<and> snd r \<noteq> None))
         \<and> (shutdown s \<or> write_err s \<noteq> None \<longrightarrow>
               r = (0, if shutdown s then clientClosed else write_err s))"
proof -
  from assms obtain x s1 where
    b: "Monitor_begin level ch s = Ok (x, s1)"
    and rest: "(case x of
                  Returned res \<Rightarrow> Ok (res, s1)
                | Waiting (q, initCh) \<Rightarrow> rbind (await initCh s1) (Monitor_end q initCh pick))
               = Ok (r, s')"
    by (auto simp add: Monitor_def rbind_eq_Ok)
  note f = Monitor_begin_frame [OF b]
  show ?thesis
  proof (cases x)
    case (Returned res)
    with rest have "r = res" "s' = s1" by simp_all
    with Returned f show ?thesis by (auto simp add: clientClosed_def)
  next
    case (Waiting w)
    with f have w: "w = (seq s + 1, next_chan s)" and k1: "keys s1 = insert (seq s + 1) (keys s)"
      and ok: "\<not> shutdown s" "write_err s = None" and q1: "seq s1 = seq s + 1"
      by auto
    from rest Waiting w obtain s2 where
      aw: "await (next_chan s) s1 = Ok s2"
      and en: "Monitor_end (seq s + 1) (next_chan s) pick s2 = Ok (r, s')"
      by (auto simp add: rbind_eq_Ok)
    note l2 = lstep_await [OF aw]
    from en have "seq s' = seq s2 \<and> keys s' \<subseteq> keys s2
         \<and> (r = (seq s + 1, the_err (fst (chan_recv (next_chan s) s2))) \<or> r = (0, clientClosed))"
      unfolding Monitor_end_def using subscribe_end_frame by blast
    with q1 lstep_seq [OF l2] lstep_keys [OF l2] k1 ok show ?thesis
      by (auto simp add: clientClosed_def)
  qed
qed

lemma Stream_frame:
  assumes "Stream fltr ch pick s = Ok (r, s')"
  shows "seq s' = seq s + 1 \<and> keys s' \<subseteq> insert (seq s + 1) (keys s)
         \<and> (fst r = seq s + 1 \<or> (fst r = 0 \<and> snd r \<noteq> None))
         \<and> (shutdown s \<or> write_err s \<noteq> None \<longrightarrow>
               r = (0, if shutdown s then clientClosed else write_err s))"
proof -
  from assms obtain x s1 where
    b: "Stream_begin fltr ch s = Ok (x, s1)"
    and rest: "(case x of
                  Returned res \<Rightarrow> Ok (res, s1)
                | Waiting (q, initCh) \<Rightarrow> rbind (await initCh s1) (Stream_end q initCh pick))
               = Ok (r, s')"
    by (auto simp add: Stream_def rbind_eq_Ok)
  note f = Stream_begin_frame [OF b]
  show ?thesis
  proof (cases x)
    case (Returned res)
    with rest have "r = res" "s' = s1" by simp_all
    with Returned f show ?thesis by (auto simp add: clientClosed_def)
  next
    case (Waiting w)
    with f have w: "w = (seq s + 1, next_chan s)" and k1: "keys s1 = insert (seq s + 1) (keys s)"
      and ok: "\<not> shutdown s" "write_err s = None" and q1: "seq s1 = seq s + 1"
      by auto
    from rest Waiting w obtain s2 where
      aw: "await (next_chan s) s1 = Ok s2"
      and en: "Stream_end (seq s + 1) (next_chan s) pick s2 = Ok (r, s')"
      by (auto simp add: rbind_eq_Ok)
    note l2 = lstep_await [OF aw]
    from en have "seq s' = seq s2 \<and> keys s' \<subseteq> keys s2
         \<and> (r = (seq s + 1, the_err (fst (chan_recv (next_chan s) s2))) \<or> r = (0, clientClosed))"
      unfolding Stream_end_def using subscribe_end_frame by blast
    with q1 lstep_seq [OF l2] lstep_keys [OF l2] k1 ok show ?thesis
      by (auto simp add: clientClosed_def)
  qed
qed

lemma Monitor_send_fails:
  assumes "shutdown s \<or> write_err s \<noteq> None" and "\<not> dispatchLock s"
      and "ch < next_chan s" and "\<not> ch_closed (chans s ch)"
  shows "\<exists>s1. Monitor level ch pick s
                 = Ok ((0, if shutdown s then clientClosed else write_err s), s1)"
proof -
  let ?c = "next_chan s" and ?p = "next_obj s" and ?q = "seq s + 1"
  let ?h = "\<lparr>Command = monitorCommand, Seq = ?q\<rparr>"
  let ?hd = "MonitorH \<lparr>mh_closed = False, mh_init = False,
                        mh_initCh = ?c, mh_logCh = ch, mh_seq = ?q\<rparr>"
  let ?s3 = "s\<lparr>seq := ?q,
                chans := (chans s)(?c := \<lparr>ch_buf = [], ch_cap = 1, ch_closed = False, ch_recvq = 0\<rparr>),
                next_chan := Suc ?c,
                objs := (objs s)(?p := ?hd),
                next_obj := Suc ?p\<rparr>"
  let ?s4 = "?s3\<lparr>dispatch := AList.update ?q ?p (dispatch ?s3),
                   trace := trace ?s3 @ [EvRegister ?q ?p True]\<rparr>"
  have h4: "handleSeq ?q ?p ?s3 = Ok ?s4" using assms(2) by (simp add: handleSeq_Ok)
  obtain e s5 where sd: "send ?h (Some (monitorRequest level)) ?s4 = (e, s5)"
    by (cases "send ?h (Some (monitorRequest level)) ?s4")
  note f = send_frame [OF sd]
  from send_wire [OF sd] assms(1) obtain err where e: "e = Some err" by auto
  have g: "Monitor_begin level ch s
             = rbind (deregisterHandler ?q s5) (\<lambda>s6. Ok (Returned (0, Some err), s6))"
    using h4 sd e
    by (simp add: Monitor_begin_def getSeq_def make_chan_def new_obj_def)
  let ?s6 = "s5\<lparr>dispatch := AList.delete ?q (dispatch s5), trace := trace s5 @ [EvDelete ?q True]\<rparr>"
  have l5: "\<not> dispatchLock s5" using f assms(2) by simp
  have m5: "map_of (dispatch s5) ?q = Some ?p" using f by (simp add: update_conv')
  have dr: "deregisterHandler ?q s5 = Cleanup ?p ?s6"
    using l5 m5 by (rule deregisterHandler_Some)
  have c1: "objs ?s6 ?p = ?hd" using f by simp
  have c2: "\<not> ch_closed (chans ?s6 (h_outCh ?hd))" using f assms(3,4) by simp
  have c3: "\<not> h_init ?hd \<longrightarrow> has_room (h_initCh ?hd) ?s6" using f by (simp add: has_room_def)
  have "\<exists>s1. Cleanup ?p ?s6 = Ok s1"
    using Cleanup_first [OF c1 _ _ c2 c3] by auto
  with g dr obtain s1 where "Monitor_begin level ch s = Ok (Returned (0, Some err), s1)"
    by auto
  then have b: "\<exists>x s1. Monitor_begin level ch s = Ok (x, s1)" by blast
  then obtain x s1 where b1: "Monitor_begin level ch s = Ok (x, s1)" by blast
  from Monitor_begin_frame [OF b1] have
    "(x = Waiting (seq s + 1, next_chan s) \<and> \<not> shutdown s \<and> write_err s = None)
     \<or> x = Returned (0, if shutdown s then clientClosed else write_err s)"
    by blast
  then have
    "x = Returned (0, if shutdown s then clientClosed else write_err s)"
  proof (rule disjE)
    assume "x = Waiting (seq s + 1, next_chan s) \<and> \<not> shutdown s \<and> write_err s = None"
    with assms(1) have False by simp
    then show ?thesis ..
  next
    assume "x = Returned (0, if shutdown s then clientClosed else write_err s)"
    then show ?thesis .
  qed
  with b1 show ?thesis by (auto simp add: Monitor_def)
qed

lemma Stream_send_fails:
  assumes "shutdown s \<or> write_err s \<noteq> None" and "\<not> dispatchLock s"
      and "ch < next_chan s" and "\<not> ch_closed (chans s ch)"
  shows "\<exists>s1. Stream fltr ch pick s
                 = Ok ((0, if shutdown s then clientClosed else write_err s), s1)"
proof -
  let ?c = "next_chan s" and ?p = "next_obj s" and ?q = "seq s + 1"
  let ?h = "\<lparr>Command = streamCommand, Seq = ?q\<rparr>"
  let ?hd = "StreamH \<lparr>sh_closed = False, sh_init = False,
                       sh_initCh = ?c, sh_eventCh = ch, sh_seq = ?q\<rparr>"
  let ?s3 = "s\<lparr>seq := ?q,
                chans := (chans s)(?c := \<lparr>ch_buf = [], ch_cap = 1, ch_closed = False, ch_recvq = 0\<rparr>),
                next_chan := Suc ?c,
                objs := (objs s)(?p := ?hd),
                next_obj := Suc ?p\<rparr>"
  let ?s4 = "?s3\<lparr>dispatch := AList.update ?q ?p (dispatch ?s3),
                   trace := trace ?s3 @ [EvRegister ?q ?p True]\<rparr>"
  have h4: "handleSeq ?q ?p ?s3 = Ok ?s4" using assms(2) by (simp add: handleSeq_Ok)
  obtain e s5 where sd: "send ?h (Some (streamRequest fltr)) ?s4 = (e, s5)"
    by (cases "send ?h (Some (streamRequest fltr)) ?s4")
  note f = send_frame [OF sd]
  from send_wire [OF sd] assms(1) obtain err where e: "e = Some err" by auto
  have g: "Stream_begin fltr ch s
             = rbind (deregisterHandler ?q s5) (\<lambda>s6. Ok (Returned (0, Some err), s6))"
    using h4 sd e
    by (simp add: Stream_begin_def getSeq_def make_chan_def new_obj_def)
  let ?s6 = "s5\<lparr>dispatch := AList.delete ?q (dispatch s5), trace := trace s5 @ [EvDelete ?q True]\<rparr>"
  have l5: "\<not> dispatchLock s5" using f assms(2) by simp
  have m5: "map_of (dispatch s5) ?q = Some ?p" using f by (simp add: update_conv')
  have dr: "deregisterHandler ?q s5 = Cleanup ?p ?s6"
    using l5 m5 by (rule deregisterHandler_Some)
  have c1: "objs ?s6 ?p = ?hd" using f by simp
  have c2: "\<not> ch_closed (chans ?s6 (h_outCh ?hd))" using f assms(3,4) by simp
  have c3: "\<not> h_init ?hd \<longrightarrow> has_room (h_initCh ?hd) ?s6" using f by (simp add: has_room_def)
  have "\<exists>s1. Cleanup ?p ?s6 = Ok s1"
    using Cleanup_first [OF c1 _ _ c2 c3] by auto
  with g dr obtain s1 where "Stream_begin fltr ch s = Ok (Returned (0, Some err), s1)"
    by auto
  then have b: "\<exists>x s1. Stream_begin fltr ch s = Ok (x, s1)" by blast
  then obtain x s1 where b1: "Stream_begin fltr ch s = Ok (x, s1)" by blast
  from Stream_begin_frame [OF b1] have
    "(x = Waiting (seq s + 1, next_chan s) \<and> \<not> shutdown s \<and> write_err s = None)
     \<or> x = Returned (0, if shutdown s then clientClosed else write_err s)"
    by blast
  then have
    "x = Returned (0, if shutdown s then clientClosed else write_err s)"
  proof (rule disjE)
    assume "x = Waiting (seq s + 1, next_chan s) \<and> \<not> shutdown s \<and> write_err s = None"
    with assms(1) have False by simp
    then show ?thesis ..
  next
    assume "x = Returned (0, if shutdown s then clientClosed else write_err s)"
    then show ?thesis .
  qed
  with b1 show ?thesis by (auto simp add: Stream_def)
qed

lemma subscribe_end_shutdown:
  assumes "ch_closed (shutdownCh s)" and "\<not> chan_can_recv c s \<or> pick = SecondCase"
      and "\<not> dispatchLock s" and "map_of (dispatch s) q = None"
  shows "Monitor_end q c pick s = Ok ((0, clientClosed), s\<lparr>trace := trace s @ [EvDelete q True]\<rparr>)"
    and "Stream_end q c pick s = Ok ((0, clientClosed), s\<lparr>trace := trace s @ [EvDelete q True]\<rparr>)"
  using assms
  by (simp_all add: Monitor_end_def Stream_end_def select_recv_second deregisterHandler_None)

lemma seq_succ_nonzero: "unat (x :: 64 word) + 1 < 2 ^ 64 \<Longrightarrow> x + 1 \<noteq> 0"
proof
  assume a: "unat x + 1 < 2 ^ 64" and b: "x + 1 = 0"
  have "unat (x + 1) = (unat x + unat (1 :: 64 word)) mod 2 ^ LENGTH(64)"
    by (rule unat_word_ariths)
  with a have "unat (x + 1) = unat x + 1" by simp
  with b show False by simp
qed

lemma unat_succ_le: "unat (x + 1 :: 64 word) \<le> unat x + 1"
proof -
  have "unat (x + 1) = (unat x + unat (1 :: 64 word)) mod 2 ^ LENGTH(64)"
    by (rule unat_word_ariths)
  also have "\<dots> \<le> unat x + unat (1 :: 64 word)" by (rule mod_less_eq_dividend)
  finally show ?thesis by simp
qed

lemma oneshot_frame:
  assumes "genericRPC h r d pick s1 = Ok (e, s')" and "seq s1 = seq s + 1" and "keys s1 = keys s"
  shows "keys s' \<subseteq> insert (seq s + 1) (keys s) \<and> (seq s' = seq s \<or> seq s' = seq s + 1)"
  using genericRPC_frame [OF assms(1)] assms(2,3) by auto

lemma exec_frame:
  assumes "exec a pick s = Ok s'"
  shows "keys s' \<subseteq> insert (seq s + 1) (keys s) \<and> (seq s' = seq s \<or> seq s' = seq s + 1)"
proof (cases a)
  case (CallForceLeave node)
  with assms obtain r where "ForceLeave node pick s = Ok (r, s')"
    by (auto simp add: rbind_eq_Ok)
  then have "genericRPC \<lparr>Command = forceLeaveCommand, Seq = seq s + 1\<rparr>
               (Some (forceLeaveRequest node)) None pick (s\<lparr>seq := seq s + 1\<rparr>) = Ok (r, s')"
    by (simp add: ForceLeave_def getSeq_def)
  then show ?thesis by (rule oneshot_frame) (simp_all add: keys_def)
next
  case (CallJoin addrs replay)
  with assms obtain r where "Join addrs replay pick s = Ok (r, s')"
    by (auto simp add: rbind_eq_Ok)
  then obtain e where "genericRPC \<lparr>Command = joinCommand, Seq = seq s + 1\<rparr>
               (Some (joinRequest addrs replay)) (Some (next_dest s)) pick
               (s\<lparr>seq := seq s + 1, dests := (dests s)(next_dest s := joinResponse 0),
                  next_dest := Suc (next_dest s)\<rparr>) = Ok (e, s')"
    by (auto simp add: Join_def getSeq_def new_dest_def rbind_eq_Ok)
  then show ?thesis by (rule oneshot_frame) (simp_all add: keys_def)
next
  case CallMembers
  with assms obtain r where "Members pick s = Ok (r, s')"
    by (auto simp add: rbind_eq_Ok)
  then obtain e where "genericRPC \<lparr>Command = membersCommand, Seq = seq s + 1\<rparr>
               None (Some (next_dest s)) pick
               (s\<lparr>seq := seq s + 1, dests := (dests s)(next_dest s := membersResponse []),
                  next_dest := Suc (next_dest s)\<rparr>) = Ok (e, s')"
    by (auto simp add: Members_def getSeq_def new_dest_def rbind_eq_Ok)
  then show ?thesis by (rule oneshot_frame) (simp_all add: keys_def)
next
  case (CallMembersFiltered tags status)
  with assms obtain r where "MembersFiltered tags status pick s = Ok (r, s')"
    by (auto simp add: rbind_eq_Ok)
  then obtain e where "genericRPC \<lparr>Command = membersFilteredCommand, Seq = seq s + 1\<rparr>
               (Some (membersRequest tags status)) (Some (next_dest s)) pick
               (s\<lparr>seq := seq s + 1, dests := (dests s)(next_dest s := membersResponse []),
                  next_dest := Suc (next_dest s)\<rparr>) = Ok (e, s')"
    by (auto simp add: MembersFiltered_def getSeq_def new_dest_def rbind_eq_Ok)
  then show ?thesis by (rule oneshot_frame) (simp_all add: keys_def)
next
  case (CallUserEvent name body coalesce)
  with assms obtain r where "UserEvent name body coalesce pick s = Ok (r, s')"
    by (auto simp add: rbind_eq_Ok)
  then have "genericRPC \<lparr>Command = eventCommand, Seq = seq s + 1\<rparr>
               (Some (eventRequest name body coalesce)) None pick (s\<lparr>seq := seq s + 1\<rparr>)
             = Ok (r, s')"
    by (simp add: UserEvent_def getSeq_def)
  then show ?thesis by (rule oneshot_frame) (simp_all add: keys_def)
next
  case CallLeave
  with assms obtain r where "Leave pick s = Ok (r, s')"
    by (auto simp add: rbind_eq_Ok)
  then have "genericRPC \<lparr>Command = leaveCommand, Seq = seq s + 1\<rparr> None None pick
               (s\<lparr>seq := seq s + 1\<rparr>) = Ok (r, s')"
    by (simp add: Leave_def getSeq_def)
  then show ?thesis by (rule oneshot_frame) (simp_all add: keys_def)
next
  case (CallUpdateTags tags delTags)
  with assms obtain r where "UpdateTags tags delTags pick s = Ok (r, s')"
    by (auto simp add: rbind_eq_Ok)
  then have "genericRPC \<lparr>Command = tagsCommand, Seq = seq s + 1\<rparr>
               (Some (tagsRequest tags delTags)) None pick (s\<lparr>seq := seq s + 1\<rparr>) = Ok (r, s')"
    by (simp add: UpdateTags_def getSeq_def)
  then show ?thesis by (rule oneshot_frame) (simp_all add: keys_def)
next
  case (CallMonitor level ch)
  with assms obtain r where "Monitor level ch pick s = Ok (r, s')"
    by (auto simp add: rbind_eq_Ok)
  from Monitor_frame [OF this] show ?thesis by simp
next
  case (CallStream fltr ch)
  with assms obtain r where "Stream fltr ch pick s = Ok (r, s')"
    by (auto simp add: rbind_eq_Ok)
  from Stream_frame [OF this] show ?thesis by simp
next
  case (CallStop handle)
  with assms obtain r where "Stop handle pick s = Ok (r, s')"
    by (auto simp add: rbind_eq_Ok)
  then obtain s0 where
    dr: "deregisterHandler handle s = Ok s0"
    and g: "genericRPC \<lparr>Command = stopCommand, Seq = seq s0 + 1\<rparr>
              (Some (stopRequest handle)) None pick (s0\<lparr>seq := seq s0 + 1\<rparr>) = Ok (r, s')"
    by (auto simp add: Stop_def rbind_eq_Ok getSeq_def)
  note ls = lstep_deregisterHandler [OF dr]
  from genericRPC_frame [OF g] have "seq s' = seq s0 + 1" "keys s' \<subseteq> keys s0"
    by (auto simp add: keys_def)
  with lstep_seq [OF ls] lstep_keys [OF ls] show ?thesis by auto
next
  case CallClose
  with assms obtain r where "Close s = Ok (r, s')"
    by (auto simp add: rbind_eq_Ok)
  from lstep_Close [OF this] show ?thesis
    using lstep_seq lstep_keys by blast
next
  case (MakeChan n)
  with assms have "s' = snd (make_chan n s)" by simp
  then show ?thesis by (auto simp add: make_chan_def keys_def)
next
  case (ListenerRuns n)
  with assms have "listen_n n s = Ok s'" by simp
  from lstep_listen_n [OF this] show ?thesis
    using lstep_seq lstep_keys by blast
qed

lemma run_keys:
  assumes "run cs s = Ok s'" and "0 \<notin> keys s" and "unat (seq s) + length cs < 2 ^ 64"
  shows "0 \<notin> keys s' \<and> unat (seq s') \<le> unat (seq s) + length cs"
  using assms
proof (induction cs arbitrary: s)
  case Nil
  then show ?case by simp
next
  case (Cons c cs)
  from Cons.prems(1) obtain s1 where
    e: "exec (fst c) (snd c) s = Ok s1" and r: "run cs s1 = Ok s'"
    by (auto simp add: rbind_eq_Ok)
  note f = exec_frame [OF e]
  have nz: "seq s + 1 \<noteq> 0"
    using Cons.prems(3) by (intro seq_succ_nonzero) simp
  have k1: "0 \<notin> keys s1" using f nz Cons.prems(2) by auto
  have q1: "unat (seq s1) \<le> unat (seq s) + 1"
    using f unat_succ_le [of "seq s"] by auto
  then have b1: "unat (seq s1) + length cs < 2 ^ 64" using Cons.prems(3) by simp
  from Cons.IH [OF r k1 b1] q1 show ?case by simp
qed

text \<open>
  C10, as the code has it. Whatever \<open>Monitor\<close> and \<open>Stream\<close> return, the
  handle is the sequence number they allocated, or it is 0 and comes with an
  error. When the client is shut down or the writer fails, so that \<open>send\<close>
  fails, they return handle 0 and the error of \<open>send\<close>; and they do return,
  given a delivery channel that the caller made and that is open. At the
  \<open>select\<close>, they return handle 0 and "client closed" when the shutdown case
  is taken, and the allocated handle with the value of the init channel when
  the init case is taken; with both cases ready either can be taken. The
  allocator returns the counter plus one, 1 on a new client, and that value is
  not 0 while the counter has not reached its last value. A new client has no
  handler registered; and when no handler is registered under 0, then after
  any sequence of calls, of channels made and of iterations of the listener
  that is too short for the counter to wrap, still no handler is registered
  under 0. When no handler is registered under 0, the \<open>deregisterHandler(0)\<close>
  of \<open>Stop(0)\<close> changes nothing but the trace: the dispatch table is as it
  was and no \<open>Cleanup\<close> is called.
\<close>

theorem handle_zero_is_no_subscription:
  "(\<forall>r s1. Monitor level ch pick s = Ok (r, s1) \<longrightarrow>
       (fst r = seq s + 1 \<or> (fst r = 0 \<and> snd r \<noteq> None))
       \<and> (shutdown s \<or> write_err s \<noteq> None \<longrightarrow>
             r = (0, if shutdown s then clientClosed else write_err s)))
   \<and> (\<forall>r s1. Stream fltr ch pick s = Ok (r, s1) \<longrightarrow>
       (fst r = seq s + 1 \<or> (fst r = 0 \<and> snd r \<noteq> None))
       \<and> (shutdown s \<or> write_err s \<noteq> None \<longrightarrow>
             r = (0, if shutdown s then clientClosed else write_err s)))
   \<and> ((shutdown s \<or> write_err s \<noteq> None) \<and> \<not> dispatchLock s
        \<and> ch < next_chan s \<and> \<not> ch_closed (chans s ch) \<longrightarrow>
       (\<exists>s1. Monitor level ch pick s
                = Ok ((0, if shutdown s then clientClosed else write_err s), s1))
       \<and> (\<exists>s1. Stream fltr ch pick s
                = Ok ((0, if shutdown s then clientClosed else write_err s), s1)))
   \<and> (\<forall>r s1. Monitor_end q c pick s = Ok (r, s1) \<longrightarrow>
       (ch_closed (shutdownCh s) \<and> (\<not> chan_can_recv c s \<or> pick = SecondCase)
          \<longrightarrow> r = (0, clientClosed))
       \<and> (chan_can_recv c s \<and> (\<not> ch_closed (shutdownCh s) \<or> pick = FirstCase)
          \<longrightarrow> r = (q, the_err (fst (chan_recv c s)))))
   \<and> (\<forall>r s1. Stream_end q c pick s = Ok (r, s1) \<longrightarrow>
       (ch_closed (shutdownCh s) \<and> (\<not> chan_can_recv c s \<or> pick = SecondCase)
          \<longrightarrow> r = (0, clientClosed))
       \<and> (chan_can_recv c s \<and> (\<not> ch_closed (shutdownCh s) \<or> pick = FirstCase)
          \<longrightarrow> r = (q, the_err (fst (chan_recv c s)))))
   \<and> (ch_closed (shutdownCh s) \<and> (\<not> chan_can_recv c s \<or> pick = SecondCase)
        \<and> \<not> dispatchLock s \<and> map_of (dispatch s) q = None \<longrightarrow>
       Monitor_end q c pick s
         = Ok ((0, clientClosed), s\<lparr>trace := trace s @ [EvDelete q True]\<rparr>)
       \<and> Stream_end q c pick s
         = Ok ((0, clientClosed), s\<lparr>trace := trace s @ [EvDelete q True]\<rparr>))
   \<and> getSeq s = (seq s + 1, s\<lparr>seq := seq s + 1\<rparr>)
   \<and> fst (getSeq (new_client input)) = 1
   \<and> keys (new_client input) = {}
   \<and> (unat (seq s) + 1 < 2 ^ 64 \<longrightarrow> fst (getSeq s) \<noteq> 0)
   \<and> (\<forall>s'. run cs s = Ok s' \<and> 0 \<notin> keys s \<and> unat (seq s) + length cs < 2 ^ 64 \<longrightarrow>
         0 \<notin> keys s' \<and> unat (seq s') \<le> unat (seq s) + length cs)
   \<and> (0 \<notin> keys s \<and> \<not> dispatchLock s \<longrightarrow>
         deregisterHandler 0 s = Ok (s\<lparr>trace := trace s @ [EvDelete 0 True]\<rparr>)
         \<and> Stop 0 pick s =
             genericRPC \<lparr>Command = stopCommand, Seq = seq s + 1\<rparr> (Some (stopRequest 0)) None
               pick (s\<lparr>trace := trace s @ [EvDelete 0 True], seq := seq s + 1\<rparr>))"
proof (intro conjI)
  show "\<forall>r s1. Monitor level ch pick s = Ok (r, s1) \<longrightarrow>
       (fst r = seq s + 1 \<or> (fst r = 0 \<and> snd r \<noteq> None))
       \<and> (shutdown s \<or> write_err s \<noteq> None \<longrightarrow>
             r = (0, if shutdown s then clientClosed else write_err s))"
    using Monitor_frame [of level ch pick s] by blast
  show "\<forall>r s1. Stream fltr ch pick s = Ok (r, s1) \<longrightarrow>
       (fst r = seq s + 1 \<or> (fst r = 0 \<and> snd r \<noteq> None))
       \<and> (shutdown s \<or> write_err s \<noteq> None \<longrightarrow>
             r = (0, if shutdown s then clientClosed else write_err s))"
    using Stream_frame [of fltr ch pick s] by blast
  show "(shutdown s \<or> write_err s \<noteq> None) \<and> \<not> dispatchLock s
        \<and> ch < next_chan s \<and> \<not> ch_closed (chans s ch) \<longrightarrow>
       (\<exists>s1. Monitor level ch pick s
                = Ok ((0, if shutdown s then clientClosed else write_err s), s1))
       \<and> (\<exists>s1. Stream fltr ch pick s
                = Ok ((0, if shutdown s then clientClosed else write_err s), s1))"
    using Monitor_send_fails [of s ch level pick] Stream_send_fails [of s ch fltr pick]
    by blast
  show "\<forall>r s1. Monitor_end q c pick s = Ok (r, s1) \<longrightarrow>
       (ch_closed (shutdownCh s) \<and> (\<not> chan_can_recv c s \<or> pick = SecondCase)
          \<longrightarrow> r = (0, clientClosed))
       \<and> (chan_can_recv c s \<and> (\<not> ch_closed (shutdownCh s) \<or> pick = FirstCase)
          \<longrightarrow> r = (q, the_err (fst (chan_recv c s))))"
    unfolding Monitor_end_def using subscribe_end_frame [of c pick s q] by blast
  show "\<forall>r s1. Stream_end q c pick s = Ok (r, s1) \<longrightarrow>
       (ch_closed (shutdownCh s) \<and> (\<not> chan_can_recv c s \<or> pick = SecondCase)
          \<longrightarrow> r = (0, clientClosed))
       \<and> (chan_can_recv c s \<and> (\<not> ch_closed (shutdownCh s) \<or> pick = FirstCase)
          \<longrightarrow> r = (q, the_err (fst (chan_recv c s))))"
    unfolding Stream_end_def using subscribe_end_frame [of c pick s q] by blast
  show "ch_closed (shutdownCh s) \<and> (\<not> chan_can_recv c s \<or> pick = SecondCase)
        \<and> \<not> dispatchLock s \<and> map_of (dispatch s) q = None \<longrightarrow>
       Monitor_end q c pick s
         = Ok ((0, clientClosed), s\<lparr>trace := trace s @ [EvDelete q True]\<rparr>)
       \<and> Stream_end q c pick s
         = Ok ((0, clientClosed), s\<lparr>trace := trace s @ [EvDelete q True]\<rparr>)"
  proof (intro impI conjI)
    assume a: "ch_closed (shutdownCh s) \<and> (\<not> chan_can_recv c s \<or> pick = SecondCase)
        \<and> \<not> dispatchLock s \<and> map_of (dispatch s) q = None"
    then have a1: "ch_closed (shutdownCh s)" and a2: "\<not> chan_can_recv c s \<or> pick = SecondCase"
      and a3: "\<not> dispatchLock s" and a4: "map_of (dispatch s) q = None"
      by simp_all
    from a1 a2 a3 a4 show "Monitor_end q c pick s
         = Ok ((0, clientClosed), s\<lparr>trace := trace s @ [EvDelete q True]\<rparr>)"
      by (rule subscribe_end_shutdown)
    from a1 a2 a3 a4 show "Stream_end q c pick s
         = Ok ((0, clientClosed), s\<lparr>trace := trace s @ [EvDelete q True]\<rparr>)"
      by (rule subscribe_end_shutdown)
  qed
  show "getSeq s = (seq s + 1, s\<lparr>seq := seq s + 1\<rparr>)"
    by (simp add: getSeq_def)
  show "fst (getSeq (new_client input)) = 1"
    by (simp add: getSeq_def new_client_def)
  show "keys (new_client input) = {}"
    by (simp add: keys_def new_client_def)
  show "unat (seq s) + 1 < 2 ^ 64 \<longrightarrow> fst (getSeq s) \<noteq> 0"
    by (simp add: getSeq_def seq_succ_nonzero)
  show "\<forall>s'. run cs s = Ok s' \<and> 0 \<notin> keys s \<and> unat (seq s) + length cs < 2 ^ 64 \<longrightarrow>
         0 \<notin> keys s' \<and> unat (seq s') \<le> unat (seq s) + length cs"
    using run_keys [of cs s] by blast
  show "0 \<notin> keys s \<and> \<not> dispatchLock s \<longrightarrow>
         deregisterHandler 0 s = Ok (s\<lparr>trace := trace s @ [EvDelete 0 True]\<rparr>)
         \<and> Stop 0 pick s =
             genericRPC \<lparr>Command = stopCommand, Seq = seq s + 1\<rparr> (Some (stopRequest 0)) None
               pick (s\<lparr>trace := trace s @ [EvDelete 0 True], seq := seq s + 1\<rparr>)"
  proof (intro impI)
    assume a: "0 \<notin> keys s \<and> \<not> dispatchLock s"
    then have "map_of (dispatch s) 0 = None" by (simp add: keys_map_of)
    with a have d: "deregisterHandler 0 s = Ok (s\<lparr>trace := trace s @ [EvDelete 0 True]\<rparr>)"
      by (simp add: deregisterHandler_None)
    then show "deregisterHandler 0 s = Ok (s\<lparr>trace := trace s @ [EvDelete 0 True]\<rparr>)
         \<and> Stop 0 pick s =
             genericRPC \<lparr>Command = stopCommand, Seq = seq s + 1\<rparr> (Some (stopRequest 0)) None
               pick (s\<lparr>trace := trace s @ [EvDelete 0 True], seq := seq s + 1\<rparr>)"
      by (simp add: Stop_def getSeq_def)
  qed
qed

theorem handle_zero_is_no_subscription_witness:
  "shutdown ex_closed \<and> \<not> dispatchLock ex_closed \<and> 1 < next_chan ex_closed
   \<and> \<not> ch_closed (chans ex_closed 1)
   \<and> (\<exists>s1. Monitor ''DEBUG'' 1 FirstCase ex_closed = Ok ((0, clientClosed), s1))
   \<and> (\<exists>s1. Stream ''*'' 1 FirstCase ex_closed = Ok ((0, clientClosed), s1))
   \<and> ch_closed (shutdownCh ex_orphaned) \<and> \<not> dispatchLock ex_orphaned
   \<and> map_of (dispatch ex_orphaned) 2 = None
   \<and> ch_buf (chans ex_orphaned 2) = [MErr (Some ''Stream closed'')]
   \<and> Monitor_end 2 2 SecondCase ex_orphaned
        = Ok ((0, clientClosed), ex_orphaned\<lparr>trace := trace ex_orphaned @ [EvDelete 2 True]\<rparr>)
   \<and> (\<exists>s1. Monitor_end 2 2 FirstCase ex_orphaned = Ok ((2, Some ''Stream closed''), s1))
   \<and> keys (ex_connected [InHeader \<lparr>rSeq = 2, rError = []\<rparr>, InHeader \<lparr>rSeq = 3, rError = []\<rparr>])
        = {}
   \<and> (\<exists>s'. run ex_program
               (ex_connected [InHeader \<lparr>rSeq = 2, rError = []\<rparr>, InHeader \<lparr>rSeq = 3, rError = []\<rparr>])
             = Ok s'
          \<and> dispatch s' = [(2, 1)] \<and> seq s' = 3 \<and> 0 \<notin> keys s'
          \<and> \<not> dispatchLock s'
          \<and> deregisterHandler 0 s' = Ok (s'\<lparr>trace := trace s' @ [EvDelete 0 True]\<rparr>))"
proof -
  let ?s = "ex_connected [InHeader \<lparr>rSeq = 2, rError = []\<rparr>, InHeader \<lparr>rSeq = 3, rError = []\<rparr>]"
  have a: "shutdown ex_closed" "\<not> dispatchLock ex_closed" "1 < next_chan ex_closed"
    "\<not> ch_closed (chans ex_closed 1)"
    by code_simp+
  from handle_zero_is_no_subscription
         [where s = ex_closed and ch = 1 and level = "''DEBUG''" and fltr = "''*''"
            and pick = FirstCase,
          THEN conjunct2, THEN conjunct2, THEN conjunct1] a
  have b: "(\<exists>s1. Monitor ''DEBUG'' 1 FirstCase ex_closed = Ok ((0, clientClosed), s1))
           \<and> (\<exists>s1. Stream ''*'' 1 FirstCase ex_closed = Ok ((0, clientClosed), s1))"
    by simp
  have c: "ch_closed (shutdownCh ex_orphaned)" "\<not> dispatchLock ex_orphaned"
    "map_of (dispatch ex_orphaned) 2 = None"
    "ch_buf (chans ex_orphaned 2) = [MErr (Some ''Stream closed'')]"
    by code_simp+
  note t = handle_zero_is_no_subscription [where s = ex_orphaned and q = 2 and c = 2]
  from t [where pick = SecondCase,
          THEN conjunct2, THEN conjunct2, THEN conjunct2, THEN conjunct2, THEN conjunct2,
          THEN conjunct1] c
  have d: "Monitor_end 2 2 SecondCase ex_orphaned
        = Ok ((0, clientClosed), ex_orphaned\<lparr>trace := trace ex_orphaned @ [EvDelete 2 True]\<rparr>)"
    by simp
  have "rbind (Monitor_end 2 2 FirstCase ex_orphaned) (\<lambda>(r, s1). Ok r)
          = Ok (2, Some ''Stream closed'')"
    by code_simp
  then have e: "\<exists>s1. Monitor_end 2 2 FirstCase ex_orphaned = Ok ((2, Some ''Stream closed''), s1)"
    by (auto simp add: rbind_eq_Ok)
  have f: "dispatch ?s = []" "seq ?s = 1" by code_simp+
  then have k: "keys ?s = {}" by (simp add: keys_def)
  have "rbind (run ex_program ?s) (\<lambda>s'. Ok (dispatch s', seq s', dispatchLock s'))
          = Ok ([(2, 1)], 3, False)"
    by code_simp
  then obtain s' where r: "run ex_program ?s = Ok s'"
    and r': "dispatch s' = [(2, 1)]" "seq s' = 3" "\<not> dispatchLock s'"
    by (auto simp add: rbind_eq_Ok)
  have len: "unat (seq ?s) + length ex_program < 2 ^ 64"
    using f by (simp add: ex_program_def)
  from handle_zero_is_no_subscription [where s = ?s and cs = ex_program,
          THEN conjunct2, THEN conjunct2, THEN conjunct2, THEN conjunct2, THEN conjunct2,
          THEN conjunct2, THEN conjunct2, THEN conjunct2, THEN conjunct2, THEN conjunct2,
          THEN conjunct1] r k len
  have g: "0 \<notin> keys s'" by blast
  from handle_zero_is_no_subscription [where s = s',
          THEN conjunct2, THEN conjunct2, THEN conjunct2, THEN conjunct2, THEN conjunct2,
          THEN conjunct2, THEN conjunct2, THEN conjunct2, THEN conjunct2, THEN conjunct2,
          THEN conjunct2] g r'(3)
  have h: "deregisterHandler 0 s' = Ok (s'\<lparr>trace := trace s' @ [EvDelete 0 True]\<rparr>)"
    by blast
  from a b c d e k r r' g h show ?thesis by blast
qed

text \<open>
  C10 as stated fails in its first part: after a shutdown that comes before
  the agent's init response, \<open>Monitor\<close> can return a handle that is not 0
  together with an error. On the client of \<open>ex_orphaned\<close> the request of
  \<open>Monitor\<close> went out with the client open and the init channel empty; the
  listener then shut the client down, and the \<open>Cleanup\<close> of the shutdown put
  "Stream closed" on the init channel. Both cases of the \<open>select\<close> are ready:
  the init case returns handle 2 with "Stream closed", the shutdown case
  handle 0 with "client closed". The whole call, with the listener running
  while the caller waits, returns the same.
\<close>

theorem Monitor_returns_handle_with_error_after_shutdown:
  "rbind (Monitor_begin ''DEBUG'' 1 (snd (make_chan 1 (ex_connected [])))) (\<lambda>(x, s1).
     rbind (listen_step s1) (\<lambda>s2.
     rbind (Monitor_end 2 2 FirstCase s2) (\<lambda>(r1, s3).
     rbind (Monitor_end 2 2 SecondCase s2) (\<lambda>(r2, s4).
       Ok (x, (shutdown s1, ch_buf (chans s1 2)),
           (shutdown s2, ch_closed (shutdownCh s2), ch_buf (chans s2 2)), r1, r2)))))
   = Ok (Waiting (2, 2), (False, []),
         (True, True, [MErr (Some ''Stream closed'')]),
         (2, Some ''Stream closed''), (0, Some ''client closed''))
   \<and> rbind (Monitor ''DEBUG'' 1 FirstCase (snd (make_chan 1 (ex_connected []))))
         (\<lambda>(r, s). Ok (r, shutdown s))
       = Ok ((2, Some ''Stream closed''), True)"
  by code_simp

end
